theory Spec2Isabelle
  imports Main "HOL-Library.Word" "HOL-Library.Monad_Syntax"
begin

unbundle bit_operations_syntax

section \<open>Machine types\<close>

text \<open>
  Go's \<^verbatim>\<open>uint\<close> is taken at its 64-bit width (amd64, arm64): \<open>+\<close> and \<open>*\<close> wrap
  modulo \<open>2 ^ 64\<close>. \<^verbatim>\<open>type Value []byte\<close> is a list of bytes.
\<close>

type_synonym uint = "64 word"
type_synonym byte = "8 word"
type_synonym Value = "byte list"

text \<open>A counter below a bound of the same width is incremented without wrap-around.\<close>

lemma unat_succ_below: "(i :: 'a::len word) < n \<Longrightarrow> unat (i + 1) = Suc (unat i)"
proof -
  assume "i < n"
  then have "unat i < unat n" by (simp add: word_less_nat_alt)
  moreover have "unat n < 2 ^ LENGTH('a)" by (rule unsigned_less)
  ultimately have "unat i + 1 < 2 ^ LENGTH('a)" by linarith
  then show ?thesis by (simp add: unat_word_ariths)
qed

section \<open>The hasher: \<^verbatim>\<open>hash/fnv\<close>, \<^verbatim>\<open>fnv.New64()\<close>\<close>

text \<open>
  \<^verbatim>\<open>fnv.New64()\<close> of Go's standard library is 64-bit FNV-1: the state is one
  \<^verbatim>\<open>uint64\<close>; \<^verbatim>\<open>Reset\<close> stores the offset basis, \<^verbatim>\<open>Write\<close> multiplies by the prime and
  then xors each byte in, \<^verbatim>\<open>Sum(nil)\<close> returns the state as eight bytes, most
  significant first.
\<close>

definition offset64 :: "64 word" where
  "offset64 = 14695981039346656037"

definition prime64 :: "64 word" where
  "prime64 = 1099511628211"

definition fnv_step :: "64 word \<Rightarrow> byte \<Rightarrow> 64 word" where
  "fnv_step hash c = (hash * prime64) XOR ucast c"

definition fnv_write :: "64 word \<Rightarrow> byte list \<Rightarrow> 64 word" where
  "fnv_write hash data = foldl fnv_step hash data"

definition fnv_sum :: "64 word \<Rightarrow> byte list" where
  "fnv_sum v = [ucast (drop_bit 56 v), ucast (drop_bit 48 v), ucast (drop_bit 40 v),
                ucast (drop_bit 32 v), ucast (drop_bit 24 v), ucast (drop_bit 16 v),
                ucast (drop_bit 8 v), ucast v]"

text \<open>
  \<^verbatim>\<open>binary.BigEndian.Uint32(b)\<close> reads \<^verbatim>\<open>b[0..3]\<close>; a shorter slice panics on the
  bounds check.
\<close>

definition BigEndian_Uint32 :: "byte list \<Rightarrow> 32 word option" where
  "BigEndian_Uint32 b =
     (if length b < 4 then None
      else Some (ucast (b ! 3) OR push_bit 8 (ucast (b ! 2)) OR push_bit 16 (ucast (b ! 1))
                 OR push_bit 24 (ucast (b ! 0))))"

section \<open>The process and the Redis server\<close>

text \<open>
  Commands of the Redis protocol that the program sends, and the integer replies they get.
\<close>

datatype command =
    EXISTS string
  | SETBIT string uint int
  | GETBIT string uint
  | EXPIRE string "64 word"

datatype error = RedisError

text \<open>
  The state outside the filter:
  \<^item> \<open>db\<close>: the server's keyspace; a key holds a bitmap, given as the set of offsets
    whose bit is 1;
  \<^item> \<open>ttl\<close>: the expiry set on a key, in seconds;
  \<^item> \<open>log\<close>: every command the server has executed, oldest first;
  \<^item> \<open>faults\<close>: the health of the connections the pool will hand out, one entry per
    \<^verbatim>\<open>pool.Get()\<close>, \<open>True\<close> for a broken one; once the list is used up every
    connection works;
  \<^item> \<open>hashers\<close>, \<open>next_hasher\<close>: the heap of \<^verbatim>\<open>hash.Hash64\<close> objects, by reference.
\<close>

record world =
  db :: "string \<rightharpoonup> nat set"
  ttl :: "string \<rightharpoonup> int"
  log :: "command list"
  faults :: "bool list"
  hashers :: "nat \<Rightarrow> 64 word"
  next_hasher :: nat

definition fnv_New64 :: "world \<Rightarrow> nat \<times> world" where
  "fnv_New64 w =
     (next_hasher w,
      w\<lparr>hashers := (hashers w)(next_hasher w := offset64), next_hasher := Suc (next_hasher w)\<rparr>)"

definition hasher_Reset :: "nat \<Rightarrow> world \<Rightarrow> world" where
  "hasher_Reset h w = w\<lparr>hashers := (hashers w)(h := offset64)\<rparr>"

definition hasher_Write :: "nat \<Rightarrow> byte list \<Rightarrow> world \<Rightarrow> world" where
  "hasher_Write h data w = w\<lparr>hashers := (hashers w)(h := fnv_write (hashers w h) data)\<rparr>"

definition hasher_Sum :: "nat \<Rightarrow> world \<Rightarrow> byte list" where
  "hasher_Sum h w = fnv_sum (hashers w h)"

section \<open>The Redis connection\<close>

text \<open>
  The server's side of the four commands. \<^verbatim>\<open>SETBIT\<close> creates a missing key and answers
  the bit's old value; \<^verbatim>\<open>GETBIT\<close> answers 0 for a missing key or an unset bit;
  \<^verbatim>\<open>EXPIRE\<close> answers 0 for a missing key, and removes the key at once when the timeout is
  not positive. The passing of time (a key reaching its expiry) is not part of the model,
  nor is the server's bound on offsets (\<open>2 ^ 32\<close> bits in a key).
\<close>

definition bitmap :: "world \<Rightarrow> string \<Rightarrow> nat set" where
  "bitmap w k = (case db w k of None \<Rightarrow> {} | Some S \<Rightarrow> S)"

fun exec :: "command \<Rightarrow> world \<Rightarrow> int \<times> world" where
  "exec (EXISTS k) w =
     ((if db w k = None then 0 else 1), w\<lparr>log := log w @ [EXISTS k]\<rparr>)"
| "exec (SETBIT k i v) w =
     ((if unat i \<in> bitmap w k then 1 else 0),
      w\<lparr>db := (db w)(k \<mapsto> (if v = 1 then insert (unat i) (bitmap w k)
                               else if v = 0 then bitmap w k - {unat i}
                               else bitmap w k)),
        log := log w @ [SETBIT k i v]\<rparr>)"
| "exec (GETBIT k i) w =
     ((if unat i \<in> bitmap w k then 1 else 0), w\<lparr>log := log w @ [GETBIT k i]\<rparr>)"
| "exec (EXPIRE k secs) w =
     (if db w k = None then (0, w\<lparr>log := log w @ [EXPIRE k secs]\<rparr>)
      else if sint secs \<le> 0
        then (1, w\<lparr>db := (db w)(k := None), ttl := (ttl w)(k := None),
                    log := log w @ [EXPIRE k secs]\<rparr>)
        else (1, w\<lparr>ttl := (ttl w)(k \<mapsto> sint secs), log := log w @ [EXPIRE k secs]\<rparr>))"

fun exec_all :: "command list \<Rightarrow> world \<Rightarrow> world" where
  "exec_all [] w = w"
| "exec_all (c # cs) w = exec_all cs (snd (exec c w))"

text \<open>
  A connection of the pool: \<^verbatim>\<open>Send\<close> writes a command into the output buffer,
  \<^verbatim>\<open>Flush\<close> hands the buffer to the server, \<^verbatim>\<open>Do\<close> sends one command, flushes and reads
  its reply. A broken connection delivers nothing and reports an error from \<^verbatim>\<open>Do\<close> and
  \<^verbatim>\<open>Flush\<close>; a connection is broken or working as a whole, from \<^verbatim>\<open>pool.Get()\<close> to
  \<^verbatim>\<open>Close\<close>.
\<close>

record conn =
  alive :: bool
  outbuf :: "command list"

definition pool_Get :: "world \<Rightarrow> conn \<times> world" where
  "pool_Get w =
     (case faults w of
        [] \<Rightarrow> (\<lparr>alive = True, outbuf = []\<rparr>, w)
      | broken # rest \<Rightarrow> (\<lparr>alive = \<not> broken, outbuf = []\<rparr>, w\<lparr>faults := rest\<rparr>))"

definition conn_Send :: "conn \<Rightarrow> command \<Rightarrow> conn" where
  "conn_Send c cmd = c\<lparr>outbuf := outbuf c @ [cmd]\<rparr>"

definition conn_Flush :: "conn \<Rightarrow> world \<Rightarrow> error option \<times> world" where
  "conn_Flush c w = (if alive c then (None, exec_all (outbuf c) w) else (Some RedisError, w))"

definition conn_Do :: "conn \<Rightarrow> command \<Rightarrow> world \<Rightarrow> (error + int) \<times> world" where
  "conn_Do c cmd w =
     (if alive c then (let (r, w') = exec cmd (exec_all (outbuf c) w) in (Inr r, w'))
      else (Inl RedisError, w))"

definition redis_Bool :: "error + int \<Rightarrow> bool \<times> error option" where
  "redis_Bool r = (case r of Inl e \<Rightarrow> (False, Some e) | Inr n \<Rightarrow> (n \<noteq> 0, None))"

definition redis_Int :: "error + int \<Rightarrow> int \<times> error option" where
  "redis_Int r = (case r of Inl e \<Rightarrow> (0, Some e) | Inr n \<Rightarrow> (n, None))"

section \<open>\<^verbatim>\<open>RedisStorage\<close> (redis.go)\<close>

text \<open>The \<^verbatim>\<open>pool\<close> field is the connection source of the world.\<close>

record RedisStorage =
  key :: string
  size_s :: uint
  queue :: "uint list"

text \<open>\<^verbatim>\<open>init\<close>: one \<^verbatim>\<open>SETBIT key i 0\<close> for every \<open>i < size\<close>, then \<^verbatim>\<open>EXPIRE\<close>, then the flush.\<close>

function init_loop :: "RedisStorage \<Rightarrow> uint \<Rightarrow> conn \<Rightarrow> conn" where
  "init_loop s i c =
     (if i < size_s s then init_loop s (i + 1) (conn_Send c (SETBIT (key s) i 0)) else c)"
  by pat_completeness auto
termination
  by (relation "measure (\<lambda>(s, i, c). unat (size_s s) - unat i)")
     (auto simp: unat_succ_below word_less_nat_alt)

definition init :: "RedisStorage \<Rightarrow> 64 word \<Rightarrow> world \<Rightarrow> error option \<times> world" where
  "init s expiredAfterSeconds w =
     (let (c, w1) = pool_Get w;
          c1 = init_loop s 0 c;
          c2 = conn_Send c1 (EXPIRE (key s) expiredAfterSeconds)
      in conn_Flush c2 w1)"

definition NewRedisStorage ::
  "string \<Rightarrow> uint \<Rightarrow> 64 word \<Rightarrow> world \<Rightarrow> (RedisStorage \<times> bool \<times> error option) \<times> world" where
  "NewRedisStorage k sz expiredAfterSeconds w =
     (let store = \<lparr>key = k, size_s = sz, queue = []\<rparr>;
          (c, w1) = pool_Get w;
          (r, w2) = conn_Do c (EXISTS k) w1;
          (exists, err) = redis_Bool r
      in if err \<noteq> None then ((store, exists, err), w2)
         else if \<not> exists then
           (let (err', w3) = init store expiredAfterSeconds w2
            in if err' \<noteq> None then ((store, exists, err'), w3)
               else ((store, exists, None), w3))
         else ((store, exists, None), w2))"

definition RedisStorage_Append :: "RedisStorage \<Rightarrow> uint \<Rightarrow> RedisStorage" where
  "RedisStorage_Append s bitno = s\<lparr>queue := queue s @ [bitno]\<rparr>"

definition RedisStorage_Save :: "RedisStorage \<Rightarrow> world \<Rightarrow> RedisStorage \<times> world" where
  "RedisStorage_Save s w =
     (if length (queue s) \<le> 0 then (s, w)
      else (let (c, w1) = pool_Get w;
                c1 = foldl (\<lambda>c bitno. conn_Send c (SETBIT (key s) bitno 1)) c (queue s);
                (err, w2) = conn_Flush c1 w1
            in (s, w2)))"

definition RedisStorage_Exists :: "RedisStorage \<Rightarrow> uint \<Rightarrow> world \<Rightarrow> (bool \<times> error option) \<times> world" where
  "RedisStorage_Exists s bitno w =
     (let (c, w1) = pool_Get w;
          (r, w2) = conn_Do c (GETBIT (key s) bitno) w1;
          (bitValue, err) = redis_Int r
      in if err \<noteq> None then ((False, err), w2)
         else ((bitValue = 1, err), w2))"

section \<open>The filter (bloom.go)\<close>

text \<open>
  \<open>storage\<close> is the interface value of the Go struct: \<open>None\<close> is the \<^verbatim>\<open>nil\<close> that
  \<^verbatim>\<open>filterSetup\<close> leaves, \<open>Some s\<close> the \<^verbatim>\<open>*RedisStorage\<close> that \<^verbatim>\<open>NewRedis\<close> stores. The
  other implementation of the interface, the in-memory bit set of \<^verbatim>\<open>NewBitset\<close>, is not
  among the sources and has no part here. Every filter is the only holder of its storage,
  so the storage object is kept inside the filter; a method that mutates the object through
  the pointer returns the filter with the new object. \<open>hasher\<close> is a reference into \<open>hashers\<close>: several filters may hold the same one.
  A run-time panic (division by zero, a call on the \<^verbatim>\<open>nil\<close> interface, a slice out of
  range) is the result \<open>None\<close>.
\<close>

record filter =
  size_f :: uint
  storage :: "RedisStorage option"
  hasher :: nat
  multiplier :: uint

record BF =
  filters :: "filter list"

text \<open>Go's \<^verbatim>\<open>%\<close> on \<^verbatim>\<open>uint\<close>: a zero divisor panics.\<close>

definition umod :: "uint \<Rightarrow> uint \<Rightarrow> uint option" where
  "umod x y = (if y = 0 then None else Some (x mod y))"

definition hashValue :: "filter \<Rightarrow> byte list \<Rightarrow> world \<Rightarrow> ((uint \<times> uint) \<times> world) option" where
  "hashValue f val w =
     (let w1 = hasher_Reset (hasher f) w;
          w2 = hasher_Write (hasher f) val w1;
          sum = hasher_Sum (hasher f) w2
      in do {
        a \<leftarrow> BigEndian_Uint32 (take 4 sum);
        b \<leftarrow> BigEndian_Uint32 (take 4 (drop 4 sum));
        Some ((ucast a, ucast b), w2)
      })"

definition hashedValue :: "filter \<Rightarrow> Value \<Rightarrow> world \<Rightarrow> ((uint \<times> uint) \<times> world) option" where
  "hashedValue f val w =
     (let w1 = hasher_Reset (hasher f) w;
          w2 = hasher_Write (hasher f) val w1;
          sum = hasher_Sum (hasher f) w2
      in do {
        a \<leftarrow> BigEndian_Uint32 (take 4 sum);
        b \<leftarrow> BigEndian_Uint32 (take 4 (drop 4 sum));
        Some ((ucast a, ucast b), w2)
      })"

text \<open>\<^verbatim>\<open>BF.Append\<close>: the loop over \<^verbatim>\<open>b.filters\<close>.\<close>

fun Append_loop :: "filter list \<Rightarrow> byte list \<Rightarrow> world \<Rightarrow> (filter list \<times> world) option" where
  "Append_loop [] val w = Some ([], w)"
| "Append_loop (f # fs) val w = do {
     ((a, b), w1) \<leftarrow> hashValue f val w;
     i \<leftarrow> umod (a + b * multiplier f) (size_f f);
     s \<leftarrow> storage f;
     (fs', w2) \<leftarrow> Append_loop fs val w1;
     Some (f\<lparr>storage := Some (RedisStorage_Append s i)\<rparr> # fs', w2)
   }"

definition Append :: "byte list \<Rightarrow> BF \<Rightarrow> world \<Rightarrow> (BF \<times> world) option" where
  "Append val bf w = do {
     (fs, w') \<leftarrow> Append_loop (filters bf) val w;
     Some (bf\<lparr>filters := fs\<rparr>, w')
   }"

text \<open>
  \<^verbatim>\<open>BF.Save\<close> starts one goroutine per filter and waits for all of them. The goroutines
  are run here one after the other, in the order of \<^verbatim>\<open>b.filters\<close>.
\<close>

fun Save_loop :: "filter list \<Rightarrow> world \<Rightarrow> (filter list \<times> world) option" where
  "Save_loop [] w = Some ([], w)"
| "Save_loop (f # fs) w = do {
     s \<leftarrow> storage f;
     (s', w1) \<leftarrow> Some (RedisStorage_Save s w);
     (fs', w2) \<leftarrow> Save_loop fs w1;
     Some (f\<lparr>storage := Some s'\<rparr> # fs', w2)
   }"

definition Save :: "BF \<Rightarrow> world \<Rightarrow> (BF \<times> world) option" where
  "Save bf w = do {
     (fs, w') \<leftarrow> Save_loop (filters bf) w;
     Some (bf\<lparr>filters := fs\<rparr>, w')
   }"

text \<open>
  \<^verbatim>\<open>BF.Exists\<close>: \<open>err\<close> is the named result, holding what the last storage call
  assigned.
\<close>

fun Exists_loop ::
  "filter list \<Rightarrow> byte list \<Rightarrow> error option \<Rightarrow> world \<Rightarrow> ((bool \<times> error option) \<times> world) option" where
  "Exists_loop [] val err w = Some ((True, err), w)"
| "Exists_loop (f # fs) val err w = do {
     ((a, b), w1) \<leftarrow> hashValue f val w;
     i \<leftarrow> umod (a + b * multiplier f) (size_f f);
     s \<leftarrow> storage f;
     ((exists, err'), w2) \<leftarrow> Some (RedisStorage_Exists s i w1);
     if \<not> exists then Some ((exists, err'), w2)
     else Exists_loop fs val err' w2
   }"

definition Exists :: "byte list \<Rightarrow> BF \<Rightarrow> world \<Rightarrow> ((bool \<times> error option) \<times> world) option" where
  "Exists val bf w = Exists_loop (filters bf) val None w"

text \<open>
  \<^verbatim>\<open>BF.Exist\<close>: the inner loop over the filters writes \<^verbatim>\<open>exists[index]\<close> after every
  storage call that did not fail; \<open>cur\<close> is the element's content so far. A slice result
  is \<open>None\<close> for \<^verbatim>\<open>nil\<close>.
\<close>

fun Exist_filters ::
  "filter list \<Rightarrow> Value \<Rightarrow> bool \<Rightarrow> world \<Rightarrow> ((bool \<times> error option) \<times> world) option" where
  "Exist_filters [] val cur w = Some ((cur, None), w)"
| "Exist_filters (f # fs) val cur w = do {
     ((a, b), w1) \<leftarrow> hashedValue f val w;
     i \<leftarrow> umod (a + b * multiplier f) (size_f f);
     s \<leftarrow> storage f;
     ((exist, err), w2) \<leftarrow> Some (RedisStorage_Exists s i w1);
     if err \<noteq> None then Some ((cur, err), w2)
     else Exist_filters fs val exist w2
   }"

fun Exist_loop ::
  "filter list \<Rightarrow> Value list \<Rightarrow> nat \<Rightarrow> bool list \<Rightarrow> world
     \<Rightarrow> ((bool list option \<times> error option) \<times> world) option" where
  "Exist_loop fs [] index exists w = Some ((Some exists, None), w)"
| "Exist_loop fs (val # vals) index exists w = do {
     ((cur, err), w1) \<leftarrow> Exist_filters fs val (exists ! index) w;
     if err \<noteq> None then Some ((Some (exists[index := cur]), err), w1)
     else Exist_loop fs vals (Suc index) (exists[index := cur]) w1
   }"

definition Exist ::
  "Value list \<Rightarrow> BF \<Rightarrow> world \<Rightarrow> ((bool list option \<times> error option) \<times> world) option" where
  "Exist vals bf w = Exist_loop (filters bf) vals 0 (replicate (length vals) False) w"

text \<open>\<^verbatim>\<open>BF.Add\<close>: for every value, the loop over the filters.\<close>

fun Add_filters :: "filter list \<Rightarrow> Value \<Rightarrow> world \<Rightarrow> (filter list \<times> world) option" where
  "Add_filters [] val w = Some ([], w)"
| "Add_filters (f # fs) val w = do {
     ((a, b), w1) \<leftarrow> hashedValue f val w;
     i \<leftarrow> umod (a + b * multiplier f) (size_f f);
     s \<leftarrow> storage f;
     (fs', w2) \<leftarrow> Add_filters fs val w1;
     Some (f\<lparr>storage := Some (RedisStorage_Append s i)\<rparr> # fs', w2)
   }"

fun Add_loop :: "filter list \<Rightarrow> Value list \<Rightarrow> world \<Rightarrow> (filter list \<times> world) option" where
  "Add_loop fs [] w = Some (fs, w)"
| "Add_loop fs (val # vals) w = do {
     (fs', w1) \<leftarrow> Add_filters fs val w;
     Add_loop fs' vals w1
   }"

definition Add :: "Value list \<Rightarrow> BF \<Rightarrow> world \<Rightarrow> (BF \<times> world) option" where
  "Add vals bf w = do {
     (fs, w') \<leftarrow> Add_loop (filters bf) vals w;
     Some (bf\<lparr>filters := fs\<rparr>, w')
   }"

text \<open>\<^verbatim>\<open>BF.Load\<close>: \<^verbatim>\<open>Add\<close>, \<^verbatim>\<open>Save\<close>, and a bare \<^verbatim>\<open>return\<close> of the named results.\<close>

definition Load ::
  "Value list \<Rightarrow> BF \<Rightarrow> world \<Rightarrow> ((bool list option \<times> error option) \<times> BF \<times> world) option" where
  "Load vals bf w = do {
     (bf1, w1) \<leftarrow> Add vals bf w;
     (bf2, w2) \<leftarrow> Save bf1 w1;
     Some ((None, None), bf2, w2)
   }"

section \<open>\<^verbatim>\<open>float64\<close> arithmetic of \<^verbatim>\<open>filterSetup\<close>\<close>

text \<open>
  \<^verbatim>\<open>filterSetup\<close> computes the partition size in \<^verbatim>\<open>float64\<close>. Only conversions of
  \<^verbatim>\<open>uint\<close> values, one division of two of them, \<^verbatim>\<open>math.Ceil\<close> and the conversion back
  occur, so a value is never negative: \<open>Finite m s\<close> is the double \<open>m / 2 ^ s\<close>, \<open>PosInf\<close>
  and \<open>NaN\<close> are what a division by zero gives. Every operation rounds to the nearest
  double, that is to 53 significant bits, ties to the even significand (IEEE 754). The
  quotient of two converted \<^verbatim>\<open>uint\<close> values lies between \<open>2 ^ - 64\<close> and \<open>2 ^ 64\<close>,
  far from the exponent range's ends, which are left out.
\<close>

datatype float64 = Finite nat nat | PosInf | NaN

text \<open>\<open>rne n d\<close>: the integer nearest to \<open>n / d\<close>, the even one of two equally near.\<close>

definition rne :: "nat \<Rightarrow> nat \<Rightarrow> nat" where
  "rne n d =
     (let m = n div d; r = n mod d
      in if 2 * r < d then m
         else if d < 2 * r then m + 1
         else if even m then m else m + 1)"

fun bitlen :: "nat \<Rightarrow> nat" where
  "bitlen n = (if n = 0 then 0 else Suc (bitlen (n div 2)))"

definition float64_of_uint :: "uint \<Rightarrow> float64" where
  "float64_of_uint x =
     (let n = unat x
      in if n < 2 ^ 53 then Finite n 0
         else (let e = bitlen n - 53 in Finite (rne n (2 ^ e) * 2 ^ e) 0))"

text \<open>
  The quotient \<open>n / d\<close> rounded: \<open>n\<close> is doubled (\<open>s\<close> times) or \<open>d\<close> is doubled (\<open>e\<close>
  times) until \<open>2 ^ 52 \<le> n / d < 2 ^ 53\<close>, where the doubles are the integers.
\<close>

function scale_up :: "nat \<Rightarrow> nat \<Rightarrow> nat \<Rightarrow> nat \<times> nat" where
  "scale_up n d s = (if 0 < n \<and> n < 2 ^ 52 * d then scale_up (2 * n) d (Suc s) else (n, s))"
  by pat_completeness auto
termination
  by (relation "measure (\<lambda>(n, d, s). 2 ^ 52 * d - n)") auto

function scale_down :: "nat \<Rightarrow> nat \<Rightarrow> nat \<Rightarrow> nat \<times> nat" where
  "scale_down n d e = (if 0 < d \<and> 2 ^ 53 * d \<le> n then scale_down n (2 * d) (Suc e) else (d, e))"
  by pat_completeness auto
termination
  by (relation "measure (\<lambda>(n, d, e). Suc n - 2 ^ 53 * d)") auto

definition round_quot :: "nat \<Rightarrow> nat \<Rightarrow> float64" where
  "round_quot n d =
     (if n = 0 then Finite 0 0
      else (let (n', s) = scale_up n d 0;
                (d', e) = scale_down n' d 0
            in Finite (rne n' d' * 2 ^ e) s))"

fun float64_div :: "float64 \<Rightarrow> float64 \<Rightarrow> float64" where
  "float64_div (Finite a s) (Finite b t) =
     (if b = 0 then (if a = 0 then NaN else PosInf)
      else round_quot (a * 2 ^ t) (b * 2 ^ s))"
| "float64_div (Finite a s) PosInf = Finite 0 0"
| "float64_div PosInf (Finite b t) = PosInf"
| "float64_div PosInf PosInf = NaN"
| "float64_div NaN y = NaN"
| "float64_div x NaN = NaN"

fun math_Ceil :: "float64 \<Rightarrow> float64" where
  "math_Ceil (Finite m s) = Finite ((m + 2 ^ s - 1) div 2 ^ s) 0"
| "math_Ceil PosInf = PosInf"
| "math_Ceil NaN = NaN"

text \<open>
  The conversion \<^verbatim>\<open>uint(x)\<close> truncates. For a value that \<^verbatim>\<open>uint\<close> cannot hold the
  language leaves the result to the implementation: \<open>plat\<close> is what the platform gives.
\<close>

fun uint_of_float64 :: "(float64 \<Rightarrow> uint) \<Rightarrow> float64 \<Rightarrow> uint" where
  "uint_of_float64 plat (Finite m s) =
     (if m div 2 ^ s < 2 ^ 64 then of_nat (m div 2 ^ s) else plat (Finite m s))"
| "uint_of_float64 plat PosInf = plat PosInf"
| "uint_of_float64 plat NaN = plat NaN"

section \<open>Construction (bloom.go)\<close>

function filterSetup_loop ::
  "(float64 \<Rightarrow> uint) \<Rightarrow> uint \<Rightarrow> float64 \<Rightarrow> nat \<Rightarrow> uint \<Rightarrow> filter list \<Rightarrow> filter list" where
  "filterSetup_loop plat hashIter partitionSize h k fs =
     (if k < hashIter
      then filterSetup_loop plat hashIter partitionSize h (k + 1)
             (fs @ [\<lparr>size_f = uint_of_float64 plat partitionSize, storage = None,
                     hasher = h, multiplier = k + 1\<rparr>])
      else fs)"
  by pat_completeness auto
termination
  by (relation "measure (\<lambda>(plat, hashIter, p, h, k, fs). unat hashIter - unat k)")
     (auto simp: unat_succ_below word_less_nat_alt)

definition filterSetup :: "(float64 \<Rightarrow> uint) \<Rightarrow> uint \<Rightarrow> uint \<Rightarrow> world \<Rightarrow> filter list \<times> world" where
  "filterSetup plat sz hashIter w =
     (let partitionSize = math_Ceil (float64_div (float64_of_uint sz) (float64_of_uint hashIter));
          (h, w1) = fnv_New64 w
      in (filterSetup_loop plat hashIter partitionSize h 0 [], w1))"

text \<open>\<^verbatim>\<open>fmt.Sprintf("%s.%d", key, filter.multiplier)\<close>: the multiplier in decimal.\<close>

definition digit :: "nat \<Rightarrow> char" where
  "digit d = ''0123456789'' ! d"

fun decimal :: "nat \<Rightarrow> string" where
  "decimal n = (if n < 10 then [digit n] else decimal (n div 10) @ [digit (n mod 10)])"

text \<open>
  \<^verbatim>\<open>NewRedis\<close>: \<open>done\<close> are the filters whose storage has been stored back into
  \<^verbatim>\<open>bloom.filters\<close>; on an error the filter at hand and the rest keep the \<^verbatim>\<open>nil\<close> storage.
\<close>

fun NewRedis_loop ::
  "string \<Rightarrow> 64 word \<Rightarrow> filter list \<Rightarrow> filter list \<Rightarrow> bool \<Rightarrow> world
     \<Rightarrow> (filter list \<times> bool \<times> error option) \<times> world" where
  "NewRedis_loop k secs done [] exist w = ((done, exist, None), w)"
| "NewRedis_loop k secs done (f # fs) exist w =
     (let ((st, exist', err), w1) =
            NewRedisStorage (k @ ''.'' @ decimal (unat (multiplier f))) (size_f f) secs w
      in if err \<noteq> None then ((done @ f # fs, exist', err), w1)
         else NewRedis_loop k secs (done @ [f\<lparr>storage := Some st\<rparr>]) fs exist' w1)"

definition NewRedis ::
  "(float64 \<Rightarrow> uint) \<Rightarrow> string \<Rightarrow> uint \<Rightarrow> uint \<Rightarrow> 64 word \<Rightarrow> world
     \<Rightarrow> (BF \<times> bool \<times> error option) \<times> world" where
  "NewRedis plat k sz hashIter expiredAfterSeconds w =
     (let (fs, w1) = filterSetup plat sz hashIter w;
          ((fs', exist, err), w2) = NewRedis_loop k expiredAfterSeconds [] fs False w1
      in ((\<lparr>filters = fs'\<rparr>, exist, err), w2))"

text \<open>
  The equations of the loops are unfolded by hand, one turn at a time, in the proofs below.
\<close>

declare init_loop.simps [simp del]
declare filterSetup_loop.simps [simp del]
declare scale_up.simps [simp del]
declare scale_down.simps [simp del]
declare bitlen.simps [simp del]
declare decimal.simps [simp del]

section \<open>Notions used to state the properties\<close>

text \<open>
  The digest of a value, its two halves, the heap after a hashing pass, and the index a
  filter derives; \<open>usable\<close> says that a filter can be operated without a panic.
\<close>

definition fnv64 :: "byte list \<Rightarrow> 64 word" where
  "fnv64 val = fnv_write offset64 val"

definition digest_a :: "byte list \<Rightarrow> uint" where
  "digest_a val = ucast (ucast (drop_bit 32 (fnv64 val)) :: 32 word)"

definition digest_b :: "byte list \<Rightarrow> uint" where
  "digest_b val = ucast (ucast (fnv64 val) :: 32 word)"

definition rehash :: "nat \<Rightarrow> byte list \<Rightarrow> world \<Rightarrow> world" where
  "rehash h val w = w\<lparr>hashers := (hashers w)(h := fnv64 val)\<rparr>"

definition usable :: "filter \<Rightarrow> bool" where
  "usable f \<longleftrightarrow> size_f f \<noteq> 0 \<and> storage f \<noteq> None"

definition index_of :: "filter \<Rightarrow> byte list \<Rightarrow> uint" where
  "index_of f val = (digest_a val + digest_b val * multiplier f) mod size_f f"

definition enqueue :: "byte list \<Rightarrow> filter \<Rightarrow> filter" where
  "enqueue val f =
     f\<lparr>storage := map_option (\<lambda>s. RedisStorage_Append s (index_of f val)) (storage f)\<rparr>"

text \<open>
  The integer a \<^verbatim>\<open>uint\<close> becomes in \<^verbatim>\<open>float64\<close>; the rounded-up quotient \<open>\<lceil>m / k\<rceil>\<close> of the
  specification; the partition size as \<^verbatim>\<open>filterSetup\<close> computes it; and the layout of a
  filter: per sub-filter the partition size, the hasher and the multiplier.
\<close>

definition float_int :: "nat \<Rightarrow> nat" where
  "float_int n = (if n < 2 ^ 53 then n else rne n (2 ^ (bitlen n - 53)) * 2 ^ (bitlen n - 53))"

definition ceil_div :: "nat \<Rightarrow> nat \<Rightarrow> nat" where
  "ceil_div m k = (m + k - 1) div k"

definition layout :: "BF \<Rightarrow> (uint \<times> nat \<times> uint) list" where
  "layout bf = map (\<lambda>f. (size_f f, hasher f, multiplier f)) (filters bf)"

definition partition_size :: "(float64 \<Rightarrow> uint) \<Rightarrow> uint \<Rightarrow> uint \<Rightarrow> uint" where
  "partition_size plat sz hashIter =
     uint_of_float64 plat (math_Ceil (float64_div (float64_of_uint sz) (float64_of_uint hashIter)))"

text \<open>
  The index of the specification, \<open>(a + i * b) mod partitionSize\<close> over the natural numbers,
  with \<open>a\<close> the first and \<open>b\<close> the second 32-bit word of the digest; and the same with the
  sum reduced modulo \<open>2 ^ 64\<close> first, as arithmetic in \<^verbatim>\<open>uint\<close> does.
\<close>

definition index_wrap :: "nat \<Rightarrow> nat \<Rightarrow> byte list \<Rightarrow> nat" where
  "index_wrap i partitionSize val =
     (let digest = unat (fnv64 val); a = digest div 2 ^ 32; b = digest mod 2 ^ 32
      in ((a + i * b) mod 2 ^ 64) mod partitionSize)"

definition index_spec :: "nat \<Rightarrow> nat \<Rightarrow> byte list \<Rightarrow> nat" where
  "index_spec i partitionSize val =
     (let digest = unat (fnv64 val); a = digest div 2 ^ 32; b = digest mod 2 ^ 32
      in (a + i * b) mod partitionSize)"

text \<open>What a working connection makes of a storage's queue.\<close>

definition flush_queue :: "RedisStorage \<Rightarrow> world \<Rightarrow> world" where
  "flush_queue s w = exec_all (map (\<lambda>b. SETBIT (key s) b 1) (queue s)) w"

text \<open>
  \<^verbatim>\<open>Load\<close> in the words of the specification: insert the batch, then flush at once.
\<close>

definition Load_spec :: "Value list \<Rightarrow> BF \<Rightarrow> world \<Rightarrow> (BF \<times> world) option" where
  "Load_spec vals bf w = (case Add vals bf w of None \<Rightarrow> None | Some (bf1, w1) \<Rightarrow> Save bf1 w1)"

text \<open>
  Between two states of a sub-filter: the partition size, the multiplier and the storage's
  key are the same and the queue has lost nothing (\<open>grows\<close>), or the two queues hold the
  same indices (\<open>same_bits\<close>). A value is \<open>queued\<close> when every sub-filter's queue holds
  its index, \<open>stored\<close> when the server has every one of its bits at 1. \<open>save_all\<close> is the
  world after the flushes of \<^verbatim>\<open>BF.Save\<close>.
\<close>

definition grows :: "filter \<Rightarrow> filter \<Rightarrow> bool" where
  "grows f f' \<longleftrightarrow>
     size_f f' = size_f f \<and> multiplier f' = multiplier f \<and>
     (case (storage f, storage f') of
        (Some s, Some s') \<Rightarrow> key s' = key s \<and> set (queue s) \<subseteq> set (queue s')
      | _ \<Rightarrow> False)"

definition queued :: "filter list \<Rightarrow> byte list \<Rightarrow> bool" where
  "queued fs val \<longleftrightarrow>
     (\<forall>f \<in> set fs. \<exists>s. storage f = Some s \<and> index_of f val \<in> set (queue s))"

definition stored :: "filter list \<Rightarrow> world \<Rightarrow> byte list \<Rightarrow> bool" where
  "stored fs w val \<longleftrightarrow>
     (\<forall>f \<in> set fs. \<exists>s. storage f = Some s \<and> unat (index_of f val) \<in> bitmap w (key s))"

definition save_all :: "filter list \<Rightarrow> world \<Rightarrow> world" where
  "save_all fs w = foldl (\<lambda>w f. snd (RedisStorage_Save (the (storage f)) w)) w fs"

definition same_bits :: "filter \<Rightarrow> filter \<Rightarrow> bool" where
  "same_bits f f' \<longleftrightarrow>
     (case (storage f, storage f') of
        (Some s, Some s') \<Rightarrow> key s' = key s \<and> set (queue s') = set (queue s)
      | _ \<Rightarrow> False)"

section \<open>A client of the filter\<close>

text \<open>
  The calls of the filter's public surface, and a client that makes a list of them one
  after the other on the same filter, dropping what the queries return. A panic ends the
  run.
\<close>

datatype call =
    Call_Append "byte list"
  | Call_Add "Value list"
  | Call_Save
  | Call_Load "Value list"
  | Call_Exists "byte list"
  | Call_Exist "Value list"

fun do_call :: "call \<Rightarrow> BF \<times> world \<Rightarrow> (BF \<times> world) option" where
  "do_call (Call_Append val) (bf, w) = Append val bf w"
| "do_call (Call_Add vals) (bf, w) = Add vals bf w"
| "do_call Call_Save (bf, w) = Save bf w"
| "do_call (Call_Load vals) (bf, w) = map_option snd (Load vals bf w)"
| "do_call (Call_Exists val) (bf, w) = map_option (\<lambda>r. (bf, snd r)) (Exists val bf w)"
| "do_call (Call_Exist vals) (bf, w) = map_option (\<lambda>r. (bf, snd r)) (Exist vals bf w)"

fun run :: "call list \<Rightarrow> BF \<times> world \<Rightarrow> (BF \<times> world) option" where
  "run [] st = Some st"
| "run (c # cs) st = (case do_call c st of None \<Rightarrow> None | Some st' \<Rightarrow> run cs st')"


section \<open>Concrete inputs\<close>

text \<open>
  An empty server with working connections; a storage with one queued index; the filter
  that \<^verbatim>\<open>NewRedis(pool, "x", 10, 2, 5)\<close> builds (two sub-filters of partition size 5).
\<close>

definition world0 :: world where
  "world0 = \<lparr>db = Map.empty, ttl = Map.empty, log = [], faults = [],
             hashers = (\<lambda>_. 0), next_hasher = 0\<rparr>"

definition store0 :: RedisStorage where
  "store0 = \<lparr>key = ''x.1'', size_s = 5, queue = [2]\<rparr>"

definition bloom0 :: BF where
  "bloom0 = \<lparr>filters =
     [\<lparr>size_f = 5, storage = Some \<lparr>key = ''x.1'', size_s = 5, queue = []\<rparr>,
       hasher = 0, multiplier = 1\<rparr>,
      \<lparr>size_f = 5, storage = Some \<lparr>key = ''x.2'', size_s = 5, queue = []\<rparr>,
       hasher = 0, multiplier = 2\<rparr>]\<rparr>"

text \<open>The world that this construction leaves, begun on the empty server.\<close>

definition world_built :: world where
  "world_built =
     \<lparr>db = [''x.1'' \<mapsto> {}, ''x.2'' \<mapsto> {}], ttl = [''x.1'' \<mapsto> 5, ''x.2'' \<mapsto> 5],
      log = [EXISTS ''x.1'', SETBIT ''x.1'' 0 0, SETBIT ''x.1'' 1 0, SETBIT ''x.1'' 2 0,
             SETBIT ''x.1'' 3 0, SETBIT ''x.1'' 4 0, EXPIRE ''x.1'' 5,
             EXISTS ''x.2'', SETBIT ''x.2'' 0 0, SETBIT ''x.2'' 1 0, SETBIT ''x.2'' 2 0,
             SETBIT ''x.2'' 3 0, SETBIT ''x.2'' 4 0, EXPIRE ''x.2'' 5],
      faults = [], hashers = (\<lambda>_. 0)(0 := offset64), next_hasher = 1\<rparr>"

text \<open>The first sub-filter of that filter.\<close>

definition filter0 :: filter where
  "filter0 = \<lparr>size_f = 5, storage = Some \<lparr>key = ''x.1'', size_s = 5, queue = []\<rparr>,
              hasher = 0, multiplier = 1\<rparr>"

text \<open>The server holding key \<^verbatim>\<open>x.1\<close> already; a pool whose next connection is broken.\<close>

definition world1 :: world where
  "world1 = world0\<lparr>db := [''x.1'' \<mapsto> {2}]\<rparr>"

definition world_down :: world where
  "world_down = world0\<lparr>faults := [True]\<rparr>"

section \<open>Hashing\<close>

text \<open>
  A hashing pass resets the hasher first, so its result depends on the value alone, not on
  what the shared hasher held: \<open>a\<close> is the upper and \<open>b\<close> the lower half of the digest.
\<close>

lemma BigEndian_high: "BigEndian_Uint32 (take 4 (fnv_sum d)) = Some (ucast (drop_bit 32 d))"
  unfolding BigEndian_Uint32_def fnv_sum_def
  apply simp
  apply (rule bit_word_eqI)
  apply (auto simp: bit_simps)
  subgoal for n
    apply (cases "n < 24")
     apply simp
    apply (subgoal_tac "56 + (n - 24) = 32 + n")
     apply simp
    apply arith
    done
  done

lemma BigEndian_low: "BigEndian_Uint32 (take 4 (drop 4 (fnv_sum d))) = Some (ucast d)"
  unfolding BigEndian_Uint32_def fnv_sum_def
  apply simp
  apply (rule bit_word_eqI)
  apply (auto simp: bit_simps)
  subgoal for n
    apply (cases "n < 24")
     apply simp
    apply (subgoal_tac "24 + (n - 24) = n")
     apply simp
    apply arith
    done
  done

lemma hashValue_eq:
  "hashValue f val w = Some ((digest_a val, digest_b val), rehash (hasher f) val w)"
  by (simp add: hashValue_def hasher_Reset_def hasher_Write_def hasher_Sum_def Let_def
      BigEndian_high BigEndian_low digest_a_def digest_b_def rehash_def fnv64_def)

lemma hashedValue_eq: "hashedValue f val w = hashValue f val w"
  by (simp add: hashValue_def hashedValue_def)

lemma rehash_fields [simp]:
  "db (rehash h val w) = db w" "ttl (rehash h val w) = ttl w" "log (rehash h val w) = log w"
  "faults (rehash h val w) = faults w" "next_hasher (rehash h val w) = next_hasher w"
  by (simp_all add: rehash_def)

lemma umod_Some: "y \<noteq> 0 \<Longrightarrow> umod x y = Some (x mod y)"
  by (simp add: umod_def)

lemma Append_loop_eq:
  "Append_loop fs val w =
     (if \<forall>f \<in> set fs. usable f
      then Some (map (enqueue val) fs, foldl (\<lambda>w f. rehash (hasher f) val w) w fs)
      else None)"
proof (induction fs arbitrary: w)
  case Nil
  show ?case by simp
next
  case (Cons f fs)
  show ?case
  proof (cases "usable f")
    case True
    then obtain s where s: "storage f = Some s" and z: "size_f f \<noteq> 0"
      by (auto simp: usable_def)
    show ?thesis
      using True s z
      by (simp add: hashValue_eq umod_Some Cons.IH enqueue_def index_of_def)
  next
    case False
    then show ?thesis
      by (auto simp: hashValue_eq umod_def usable_def)
  qed
qed

lemma Add_filters_eq: "Add_filters fs val w = Append_loop fs val w"
  by (induction fs arbitrary: w) (simp_all add: hashedValue_eq)


section \<open>The server and the storage\<close>

lemma exec_keeps [simp]:
  "faults (snd (exec c w)) = faults w" "hashers (snd (exec c w)) = hashers w"
  "next_hasher (snd (exec c w)) = next_hasher w" "log (snd (exec c w)) = log w @ [c]"
  by (cases c; simp)+

lemma exec_all_keeps [simp]:
  "faults (exec_all cs w) = faults w" "hashers (exec_all cs w) = hashers w"
  "next_hasher (exec_all cs w) = next_hasher w" "log (exec_all cs w) = log w @ cs"
  by (induction cs arbitrary: w; simp)+

lemma exec_all_append: "exec_all (xs @ ys) w = exec_all ys (exec_all xs w)"
  by (induction xs arbitrary: w) simp_all

lemma bitmap_cong: "db w = db w' \<Longrightarrow> bitmap w k = bitmap w' k"
  by (simp add: bitmap_def)

lemma db_setbits:
  "db (exec_all (map (\<lambda>b. SETBIT k b 1) q) w) =
     (if q = [] then db w else (db w)(k \<mapsto> bitmap w k \<union> unat ` set q))"
proof (induction q arbitrary: w)
  case Nil
  show ?case by simp
next
  case (Cons b q)
  show ?case
    by (auto simp: Cons.IH bitmap_def)
qed

lemma ttl_setbits: "ttl (exec_all (map (\<lambda>b. SETBIT k b 1) q) w) = ttl w"
  by (induction q arbitrary: w) simp_all

lemma bitmap_setbits:
  "bitmap (exec_all (map (\<lambda>b. SETBIT k b 1) q) w) k' =
     (if k' = k then bitmap w k \<union> unat ` set q else bitmap w k')"
  by (simp add: bitmap_def db_setbits)

lemma send_fold:
  "foldl (\<lambda>c b. conn_Send c (SETBIT k b 1)) c q = c\<lparr>outbuf := outbuf c @ map (\<lambda>b. SETBIT k b 1) q\<rparr>"
  by (induction q arbitrary: c) (simp_all add: conn_Send_def)

lemma RedisStorage_Save_eq:
  "RedisStorage_Save s w =
     (s, if queue s = [] then w
         else (case faults w of
                 [] \<Rightarrow> flush_queue s w
               | broken # rest \<Rightarrow>
                   if broken then w\<lparr>faults := rest\<rparr> else flush_queue s (w\<lparr>faults := rest\<rparr>)))"
  by (simp add: RedisStorage_Save_def pool_Get_def send_fold conn_Flush_def flush_queue_def
      Let_def split: list.splits)

lemma RedisStorage_Save_fst [simp]: "fst (RedisStorage_Save s w) = s"
  by (simp add: RedisStorage_Save_eq)

lemma RedisStorage_Exists_eq:
  "RedisStorage_Exists s i w =
     (case faults w of
        [] \<Rightarrow> ((unat i \<in> bitmap w (key s), None), w\<lparr>log := log w @ [GETBIT (key s) i]\<rparr>)
      | broken # rest \<Rightarrow>
          if broken then ((False, Some RedisError), w\<lparr>faults := rest\<rparr>)
          else ((unat i \<in> bitmap w (key s), None),
                w\<lparr>faults := rest, log := log w @ [GETBIT (key s) i]\<rparr>))"
  by (simp add: RedisStorage_Exists_def pool_Get_def conn_Do_def redis_Int_def bitmap_def
      split: list.splits)

lemma Save_loop_eq:
  "Save_loop fs w =
     (if \<forall>f \<in> set fs. storage f \<noteq> None
      then Some (fs, foldl (\<lambda>w f. snd (RedisStorage_Save (the (storage f)) w)) w fs)
      else None)"
proof (induction fs arbitrary: w)
  case Nil
  show ?case by simp
next
  case (Cons f fs)
  show ?case
  proof (cases "storage f")
    case None
    then show ?thesis by simp
  next
    case (Some s)
    have "f\<lparr>storage := Some s\<rparr> = f" using Some by simp
    then show ?thesis
      using Some by (simp add: Cons.IH case_prod_beta)
  qed
qed


lemma RedisStorage_Exists_error:
  "RedisStorage_Exists s i w = ((ex, err), w') \<Longrightarrow> err \<noteq> None \<Longrightarrow> \<not> ex"
  by (auto simp: RedisStorage_Exists_eq split: list.splits if_splits)

lemma init_loop_eq:
  "init_loop s i c =
     c\<lparr>outbuf := outbuf c @ map (\<lambda>j. SETBIT (key s) (of_nat j) 0) [unat i..<unat (size_s s)]\<rparr>"
proof (induction s i c rule: init_loop.induct)
  case (1 s i c)
  show ?case
  proof (cases "i < size_s s")
    case True
    then have lt: "unat i < unat (size_s s)" by (simp add: word_less_nat_alt)
    have "[unat i..<unat (size_s s)] = unat i # [Suc (unat i)..<unat (size_s s)]"
      using lt by (simp add: upt_conv_Cons)
    then show ?thesis
      using True "1.IH" [OF True]
      by (subst init_loop.simps) (simp add: conn_Send_def unat_succ_below [OF True])
  next
    case False
    then have "unat (size_s s) \<le> unat i" by (simp add: word_less_nat_alt)
    then show ?thesis
      using False by (subst init_loop.simps) simp
  qed
qed

lemma db_zero_bits:
  "db (exec_all (map (\<lambda>j. SETBIT k (of_nat j) 0) js) w) =
     (if js = [] then db w
      else (db w)(k \<mapsto> bitmap w k - (\<lambda>j. unat (of_nat j :: uint)) ` set js))"
proof (induction js arbitrary: w)
  case Nil
  show ?case by simp
next
  case (Cons j js)
  show ?case
  proof (cases "js = []")
    case True
    then show ?thesis by (simp add: bitmap_def)
  next
    case False
    have "bitmap w k - {unat (word_of_nat j :: uint)} - (\<lambda>j. unat (word_of_nat j :: uint)) ` set js
      = bitmap w k - insert (unat (word_of_nat j :: uint)) ((\<lambda>j. unat (word_of_nat j :: uint)) ` set js)"
      by blast
    then show ?thesis
      using False by (simp add: Cons.IH bitmap_def)
  qed
qed

lemma NewRedisStorage_healthy:
  assumes "faults w = []"
  shows "NewRedisStorage k sz secs w =
     ((\<lparr>key = k, size_s = sz, queue = []\<rparr>, db w k \<noteq> None, None),
      (if db w k \<noteq> None then w\<lparr>log := log w @ [EXISTS k]\<rparr>
       else exec_all (map (\<lambda>j. SETBIT k (of_nat j) 0) [0..<unat sz] @ [EXPIRE k secs])
              (w\<lparr>log := log w @ [EXISTS k]\<rparr>)))"
  using assms
  by (simp add: NewRedisStorage_def pool_Get_def conn_Do_def redis_Bool_def init_def
      init_loop_eq conn_Send_def conn_Flush_def Let_def)

lemma NewRedisStorage_existing_key:
  assumes "db w k \<noteq> None"
  shows "db (snd (NewRedisStorage k sz secs w)) = db w"
    and "ttl (snd (NewRedisStorage k sz secs w)) = ttl w"
  using assms
  by (auto simp: NewRedisStorage_def pool_Get_def conn_Do_def redis_Bool_def Let_def
      split: list.splits)

lemma bitmap_after_init:
  assumes "db w k = None"
  shows "bitmap (exec_all (map (\<lambda>j. SETBIT k (of_nat j) 0) js @ [EXPIRE k secs]) w) k = {}"
  using assms
  by (simp add: exec_all_append bitmap_def db_zero_bits)

lemma expiry_after_init:
  assumes "db w k = None" "js \<noteq> []" "0 < sint secs"
  shows "ttl (exec_all (map (\<lambda>j. SETBIT k (of_nat j) 0) js @ [EXPIRE k secs]) w) k = Some (sint secs)"
  using assms
  by (simp add: exec_all_append bitmap_def db_zero_bits)

section \<open>The loops of the filter\<close>

lemma usable_enqueue [simp]: "usable (enqueue val f) = usable f"
  by (cases "storage f") (simp_all add: usable_def enqueue_def)

lemma usable_enqueue_all:
  "\<forall>f \<in> set fs. usable f \<Longrightarrow>
   \<forall>f \<in> set (foldl (\<lambda>fs v. map (enqueue v) fs) fs vals). usable f"
proof (induction vals arbitrary: fs)
  case Nil
  then show ?case by simp
next
  case (Cons v vals)
  have "\<forall>f \<in> set (map (enqueue v) fs). usable f" using Cons.prems by simp
  from Cons.IH [OF this] show ?case by simp
qed

lemma Add_loop_usable:
  "\<forall>f \<in> set fs. usable f \<Longrightarrow>
   \<exists>w'. Add_loop fs vals w = Some (foldl (\<lambda>fs v. map (enqueue v) fs) fs vals, w')
        \<and> db w' = db w \<and> ttl w' = ttl w \<and> log w' = log w \<and> faults w' = faults w"
proof (induction vals arbitrary: fs w)
  case Nil
  show ?case by simp
next
  case (Cons v vals)
  let ?w1 = "foldl (\<lambda>w f. rehash (hasher f) v w) w fs"
  have w1: "db ?w1 = db w \<and> ttl ?w1 = ttl w \<and> log ?w1 = log w \<and> faults ?w1 = faults w"
    by (induction fs arbitrary: w) simp_all
  have "\<forall>f \<in> set (map (enqueue v) fs). usable f" using Cons.prems by simp
  from Cons.IH [OF this, of ?w1] w1 Cons.prems show ?case
    by (simp add: Add_filters_eq Append_loop_eq)
qed

lemma Exists_loop_append:
  "Exists_loop (pre @ rest) val e w =
     (case Exists_loop pre val e w of
        None \<Rightarrow> None
      | Some ((ex, e'), w1) \<Rightarrow> if ex then Exists_loop rest val e' w1 else Some ((ex, e'), w1))"
proof (induction pre arbitrary: e w)
  case Nil
  show ?case by simp
next
  case (Cons f pre)
  show ?case
    by (simp add: Cons.IH hashValue_eq split: bind_splits prod.splits)
qed

lemma enqueue_fields [simp]:
  "size_f (enqueue val f) = size_f f" "hasher (enqueue val f) = hasher f"
  "multiplier (enqueue val f) = multiplier f"
  by (simp_all add: enqueue_def)

lemma layout_enqueue:
  "map (\<lambda>f. (size_f f, hasher f, multiplier f)) (map (enqueue val) fs)
     = map (\<lambda>f. (size_f f, hasher f, multiplier f)) fs"
  by simp

lemma Append_loop_layout:
  "Append_loop fs val w = Some (fs', w') \<Longrightarrow>
   map (\<lambda>f. (size_f f, hasher f, multiplier f)) fs' = map (\<lambda>f. (size_f f, hasher f, multiplier f)) fs"
proof -
  assume "Append_loop fs val w = Some (fs', w')"
  then have "fs' = map (enqueue val) fs"
    by (simp add: Append_loop_eq split: if_splits)
  then show ?thesis by (simp only: layout_enqueue)
qed

lemma Add_loop_layout:
  "Add_loop fs vals w = Some (fs', w') \<Longrightarrow>
   map (\<lambda>f. (size_f f, hasher f, multiplier f)) fs' = map (\<lambda>f. (size_f f, hasher f, multiplier f)) fs"
proof (induction vals arbitrary: fs w)
  case Nil
  then show ?case by simp
next
  case (Cons v vals)
  from Cons.prems obtain fs1 w1 where
    a: "Append_loop fs v w = Some (fs1, w1)" and b: "Add_loop fs1 vals w1 = Some (fs', w')"
    by (auto simp: Add_filters_eq split: bind_splits)
  from Cons.IH [OF b] Append_loop_layout [OF a] show ?case by simp
qed

lemma Append_layout: "Append val bf w = Some (bf', w') \<Longrightarrow> layout bf' = layout bf"
  by (auto simp: Append_def layout_def split: bind_splits dest: Append_loop_layout)

lemma Add_layout: "Add vals bf w = Some (bf', w') \<Longrightarrow> layout bf' = layout bf"
  by (auto simp: Add_def layout_def split: bind_splits dest: Add_loop_layout)

lemma Save_same: "Save bf w = Some (bf', w') \<Longrightarrow> bf' = bf"
  by (auto simp: Save_def Save_loop_eq split: bind_splits if_splits)

lemma Load_layout: "Load vals bf w = Some (r, bf', w') \<Longrightarrow> layout bf' = layout bf"
proof -
  assume "Load vals bf w = Some (r, bf', w')"
  then obtain bf1 w1 where a: "Add vals bf w = Some (bf1, w1)" and s: "Save bf1 w1 = Some (bf', w')"
    by (auto simp: Load_def split: bind_splits)
  from Save_same [OF s] Add_layout [OF a] show ?thesis by simp
qed

lemma unat_multiplier: "j < unat (k :: uint) \<Longrightarrow> unat (of_nat (Suc j) :: uint) = Suc j"
proof -
  assume "j < unat k"
  moreover have "unat k < 2 ^ 64" using unsigned_less [of k] by simp
  ultimately have "Suc j < 2 ^ 64" by linarith
  then show ?thesis by (simp add: unat_of_nat del: of_nat_Suc)
qed

section \<open>Rounding in \<^verbatim>\<open>float64\<close>\<close>

lemma rne_upper: "0 < d \<Longrightarrow> n \<le> K * d \<Longrightarrow> rne n d \<le> K"
proof -
  assume d: "0 < d" and n: "n \<le> K * d"
  have "n div d \<le> (K * d) div d" using n by (rule div_le_mono)
  then have m: "n div d \<le> K" using d by simp
  show ?thesis
  proof (cases "n mod d = 0")
    case True
    then show ?thesis using m d by (simp add: rne_def Let_def)
  next
    case False
    have "n div d < K"
    proof (rule ccontr)
      assume "\<not> n div d < K"
      then have "n div d = K" using m by simp
      then have "n = K * d + n mod d" by (metis div_mult_mod_eq)
      then show False using False n by simp
    qed
    then show ?thesis by (simp add: rne_def Let_def)
  qed
qed

lemma rne_lower: "0 < d \<Longrightarrow> (2 * K + 1) * d < 2 * n \<Longrightarrow> K + 1 \<le> rne n d"
proof -
  assume d: "0 < d" and n: "(2 * K + 1) * d < 2 * n"
  have eq: "n = (n div d) * d + n mod d" by simp
  have r: "n mod d < d" using d by simp
  have ge: "n div d \<le> rne n d" by (simp add: rne_def Let_def)
  show ?thesis
  proof (cases "K + 1 \<le> n div d")
    case True
    then show ?thesis using ge by simp
  next
    case False
    then have le: "n div d \<le> K" by simp
    have "n div d = K"
    proof (rule ccontr)
      assume "n div d \<noteq> K"
      then have "n div d + 1 \<le> K" using le by simp
      then have "(n div d + 1) * d \<le> K * d" by (rule mult_le_mono1)
      moreover have "n < n div d * d + d" using eq r by linarith
      ultimately have "n < K * d" by (simp add: algebra_simps)
      then have "2 * n < 2 * (K * d)" by simp
      then show False using n by (simp add: algebra_simps)
    qed
    then have "2 * (K * d + n mod d) > (2 * K + 1) * d" using n eq by metis
    then have "d < 2 * (n mod d)" by (simp add: algebra_simps)
    then show ?thesis using \<open>n div d = K\<close> by (simp add: rne_def Let_def)
  qed
qed

lemma scale_up_spec:
  "0 < n \<Longrightarrow> n < 2 ^ 53 * d \<Longrightarrow> scale_up n d s = (n', s') \<Longrightarrow>
   \<exists>t. s' = s + t \<and> n' = n * 2 ^ t \<and> 2 ^ 52 * d \<le> n' \<and> n' < 2 ^ 53 * d"
proof (induction n d s rule: scale_up.induct)
  case (1 n d s)
  show ?case
  proof (cases "n < 2 ^ 52 * d")
    case True
    have c: "0 < n \<and> n < 2 ^ 52 * d" using True "1.prems" by simp
    have "scale_up (2 * n) d (Suc s) = (n', s')"
      using "1.prems"(3) c by (subst (asm) scale_up.simps) simp
    moreover have "2 * n < 2 ^ 53 * d" using True by simp
    moreover have "0 < 2 * n" using "1.prems" by simp
    ultimately obtain t where "s' = Suc s + t \<and> n' = 2 * n * 2 ^ t \<and> 2 ^ 52 * d \<le> n' \<and> n' < 2 ^ 53 * d"
      using "1.IH" [OF c] by blast
    then have "s' = s + Suc t \<and> n' = n * 2 ^ Suc t \<and> 2 ^ 52 * d \<le> n' \<and> n' < 2 ^ 53 * d"
      by simp
    then show ?thesis by blast
  next
    case False
    then have "scale_up n d s = (n, s)" by (subst scale_up.simps) simp
    then have "n' = n" "s' = s" using "1.prems"(3) by simp_all
    then have "s' = s + 0 \<and> n' = n * 2 ^ 0 \<and> 2 ^ 52 * d \<le> n' \<and> n' < 2 ^ 53 * d"
      using False "1.prems" by simp
    then show ?thesis by blast
  qed
qed

lemma scale_down_id: "n < 2 ^ 53 * d \<Longrightarrow> scale_down n d e = (d, e)"
  by (subst scale_down.simps) simp

lemma ceil_round_quot:
  assumes p: "0 < p" "p < 2 ^ 53" and d: "0 < d"
  shows "math_Ceil (round_quot p d) = Finite ((p + d - 1) div d) 0"
proof -
  obtain n' s where su: "scale_up p d 0 = (n', s)" by (cases "scale_up p d 0")
  have "p < 2 ^ 53 * d" using p d by (metis (no_types) less_le_trans mult.right_neutral mult_le_mono2 Suc_leI One_nat_def)
  from scale_up_spec [OF p(1) this su]
  have n': "n' = p * 2 ^ s" and lo: "2 ^ 52 * d \<le> n'" and hi: "n' < 2 ^ 53 * d" by auto
  have sd: "scale_down n' d 0 = (d, 0)" using hi by (rule scale_down_id)
  have rq: "round_quot p d = Finite (rne n' d) s"
    using p(1) su sd by (simp add: round_quot_def)
  define n0 where "n0 = (p - 1) div d"
  define m where "m = rne n' d"
  have n0d: "n0 * d \<le> p - 1" by (simp add: n0_def)
  have "p - 1 < (n0 + 1) * d" using d by (simp add: n0_def dividend_less_div_times)
  then have pd: "p \<le> (n0 + 1) * d" using p(1) by linarith
  have "p * 2 ^ s \<le> (n0 + 1) * d * 2 ^ s" using pd by (rule mult_le_mono1)
  moreover have "(n0 + 1) * d * 2 ^ s = (2 ^ s * (n0 + 1)) * d" by (simp only: mult_ac)
  ultimately have "n' \<le> (2 ^ s * (n0 + 1)) * d" by (simp only: n')
  from rne_upper [OF d this] have up: "m \<le> 2 ^ s * (n0 + 1)" by (simp add: m_def)
  have "2 ^ 52 * d \<le> p * 2 ^ s" using lo n' by simp
  also have "p * 2 ^ s < 2 ^ 53 * 2 ^ s" using p(2) by simp
  finally have "2 ^ 52 * d < 2 ^ 52 * (2 * 2 ^ s)" by simp
  then have dlt: "d < 2 * 2 ^ s" by simp
  have "2 * 2 ^ s * (n0 * d) \<le> 2 * 2 ^ s * (p - 1)" using n0d by (rule mult_le_mono2)
  then have "2 * 2 ^ s * (n0 * d) + 2 * 2 ^ s \<le> 2 * 2 ^ s * p"
    using p(1) by (cases p) (simp_all add: algebra_simps)
  then have "(2 * (2 ^ s * n0) + 1) * d < 2 * n'"
    using dlt by (simp add: n' algebra_simps)
  from rne_lower [OF d this] have low: "2 ^ s * n0 + 1 \<le> m" by (simp add: m_def)
  have "(m + 2 ^ s - 1) div 2 ^ s = Suc n0"
  proof (rule div_nat_eqI)
    have pos: "0 < (2::nat) ^ s" by simp
    have e1: "(2::nat) ^ s * Suc n0 = 2 ^ s * n0 + 2 ^ s" by simp
    have e2: "(2::nat) ^ s * Suc (Suc n0) = 2 ^ s * (n0 + 1) + 2 ^ s" by simp
    show "2 ^ s * Suc n0 \<le> m + 2 ^ s - 1" using low pos e1 by linarith
    show "m + 2 ^ s - 1 < 2 ^ s * Suc (Suc n0)" using up pos e2 by linarith
  qed
  moreover have "(p + d - 1) div d = Suc n0"
  proof -
    have "p + d - 1 = (p - 1) + d" using p(1) by simp
    then have "(p + d - 1) div d = ((p - 1) + d) div d" by (rule arg_cong)
    also have "\<dots> = Suc ((p - 1) div d)" using d by (simp only: div_add_self2)
    finally show ?thesis by (simp only: n0_def)
  qed
  ultimately show ?thesis by (simp only: rq m_def math_Ceil.simps)
qed

lemma bitlen_bounds: "0 < n \<Longrightarrow> 2 ^ (bitlen n - 1) \<le> n \<and> n < 2 ^ bitlen n"
proof (induction n rule: bitlen.induct)
  case (1 n)
  have b: "bitlen n = Suc (bitlen (n div 2))"
    using "1.prems" by (subst bitlen.simps) simp
  show ?case
  proof (cases "n div 2 = 0")
    case True
    then have "n = 1" using "1.prems" by arith
    then show ?thesis by (simp add: bitlen.simps)
  next
    case False
    then have pos: "0 < n div 2" by simp
    have n0: "n \<noteq> 0" using "1.prems" by simp
    from "1.IH" [OF n0 pos]
    have lo: "2 ^ (bitlen (n div 2) - 1) \<le> n div 2" and hi: "n div 2 < 2 ^ bitlen (n div 2)"
      by simp_all
    have bl: "0 < bitlen (n div 2)"
      using pos by (subst bitlen.simps) simp
    have "2 * 2 ^ (bitlen (n div 2) - 1) \<le> n" using lo by linarith
    moreover have "2 * 2 ^ (bitlen (n div 2) - 1) = (2::nat) ^ bitlen (n div 2)"
      using bl by (cases "bitlen (n div 2)") simp_all
    moreover have "n < 2 * 2 ^ bitlen (n div 2)" using hi by linarith
    ultimately show ?thesis by (simp add: b)
  qed
qed

lemma float64_of_uint_eq: "float64_of_uint x = Finite (float_int (unat x)) 0"
  by (simp add: float64_of_uint_def float_int_def Let_def)

lemma float_int_small: "n < 2 ^ 53 \<Longrightarrow> float_int n = n"
  by (simp add: float_int_def)

lemma float_int_large:
  assumes "2 ^ 53 \<le> n"
  shows "2 ^ 53 \<le> float_int n"
proof -
  have pos: "0 < n" using assms by (metis less_le_trans zero_less_numeral zero_less_power)
  define e where "e = bitlen n - 53"
  from bitlen_bounds [OF pos] have lo: "2 ^ (bitlen n - 1) \<le> n" and hi: "n < 2 ^ bitlen n"
    by simp_all
  have "(2::nat) ^ 53 < 2 ^ bitlen n" using assms hi by linarith
  then have "53 < bitlen n" by (simp only: power_strict_increasing_iff one_less_numeral_iff semiring_norm)
  then have e1: "1 \<le> e" and bl: "bitlen n - 1 = 52 + e" by (simp_all add: e_def)
  have "(2::nat) ^ (bitlen n - 1) = 2 ^ 52 * 2 ^ e" by (simp only: bl power_add)
  then have "(2::nat) ^ 52 * 2 ^ e \<le> n" using lo by (simp only:)
  then have "(2 ^ 52 * 2 ^ e) div 2 ^ e \<le> n div 2 ^ e" by (rule div_le_mono)
  then have "2 ^ 52 \<le> n div 2 ^ e" by simp
  moreover have "n div 2 ^ e \<le> rne n (2 ^ e)" by (simp add: rne_def Let_def)
  ultimately have "2 ^ 52 \<le> rne n (2 ^ e)" by linarith
  moreover have "(2::nat) \<le> 2 ^ e"
    using e1 by (metis power_increasing one_le_numeral power_one_right)
  ultimately have "2 ^ 52 * 2 \<le> rne n (2 ^ e) * 2 ^ e" by (rule mult_le_mono)
  then have "2 ^ 53 \<le> rne n (2 ^ e) * 2 ^ e" by simp
  moreover have "\<not> n < 2 ^ 53" using assms by simp
  ultimately show ?thesis by (simp only: float_int_def e_def if_False)
qed

lemma ceil_div_large: "0 < p \<Longrightarrow> p \<le> x \<Longrightarrow> ceil_div p x = 1"
proof -
  assume p: "0 < p" "p \<le> x"
  have "(p + x - 1) div x = 1"
  proof (rule div_nat_eqI)
    show "x * 1 \<le> p + x - 1" using p by simp
    show "p + x - 1 < x * Suc 1" using p by simp
  qed
  then show ?thesis by (simp add: ceil_div_def)
qed

lemma ceil_div_le: "0 < p \<Longrightarrow> 0 < d \<Longrightarrow> ceil_div p d \<le> p"
proof -
  assume p: "0 < p" and d: "0 < d"
  have "p + d - 1 = (p - 1) + d" using p by simp
  then have "(p + d - 1) div d = ((p - 1) + d) div d" by (rule arg_cong)
  also have "\<dots> = Suc ((p - 1) div d)" using d by (simp only: div_add_self2)
  also have "\<dots> \<le> Suc (p - 1)" by (simp add: div_le_dividend)
  finally show ?thesis using p by (simp add: ceil_div_def)
qed

lemma partition_exact:
  assumes sz: "unat sz < 2 ^ 53" and k: "hashIter \<noteq> 0"
  shows "partition_size plat sz hashIter = of_nat (ceil_div (unat sz) (unat hashIter))"
proof -
  define p where "p = unat sz"
  define q where "q = unat hashIter"
  define q' where "q' = float_int q"
  have q: "0 < q" using k by (simp add: q_def unat_gt_0)
  have q'pos: "0 < q'"
  proof (cases "q < 2 ^ 53")
    case True
    then show ?thesis using q by (simp add: q'_def float_int_small)
  next
    case False
    then have "2 ^ 53 \<le> q" by simp
    from float_int_large [OF this] show ?thesis by (simp add: q'_def)
  qed
  have fp: "float64_of_uint sz = Finite p 0"
    using sz by (simp add: float64_of_uint_eq float_int_small p_def)
  have fq: "float64_of_uint hashIter = Finite q' 0"
    by (simp add: float64_of_uint_eq q'_def q_def)
  have dv: "float64_div (Finite p 0) (Finite q' 0) = round_quot p q'"
    using q'pos by simp
  show ?thesis
  proof (cases "p = 0")
    case True
    have "ceil_div 0 q = 0" using q by (simp add: ceil_div_def)
    moreover have "partition_size plat sz hashIter = uint_of_float64 plat (math_Ceil (round_quot p q'))"
      by (simp only: partition_size_def fp fq dv)
    ultimately show ?thesis
      using True by (simp add: round_quot_def p_def [symmetric] q_def [symmetric])
  next
    case False
    then have ppos: "0 < p" by simp
    have p53: "p < 2 ^ 53" using sz by (simp add: p_def)
    have c: "math_Ceil (round_quot p q') = Finite (ceil_div p q') 0"
      using ceil_round_quot [OF ppos p53 q'pos] by (simp add: ceil_div_def)
    have same: "ceil_div p q' = ceil_div p q"
    proof (cases "q < 2 ^ 53")
      case True
      then show ?thesis by (simp add: q'_def float_int_small)
    next
      case False
      then have big: "2 ^ 53 \<le> q" by simp
      from float_int_large [OF big] have "2 ^ 53 \<le> q'" by (simp add: q'_def)
      then have "p \<le> q'" "p \<le> q" using p53 big by linarith+
      then show ?thesis using ppos by (simp add: ceil_div_large)
    qed
    have "ceil_div p q \<le> p" using ppos q by (rule ceil_div_le)
    moreover have "(2::nat) ^ 53 < 2 ^ 64" by simp
    ultimately have lt: "ceil_div p q < 2 ^ 64" using p53 by linarith
    have "partition_size plat sz hashIter = uint_of_float64 plat (math_Ceil (round_quot p q'))"
      by (simp only: partition_size_def fp fq dv)
    also have "\<dots> = uint_of_float64 plat (Finite (ceil_div p q) 0)"
      by (simp only: c same)
    also have "\<dots> = of_nat (ceil_div p q)"
      using lt by simp
    finally show ?thesis by (simp only: p_def q_def)
  qed
qed

lemma filterSetup_loop_eq:
  "filterSetup_loop plat hashIter ps h k fs =
     fs @ map (\<lambda>j. \<lparr>size_f = uint_of_float64 plat ps, storage = None, hasher = h,
                    multiplier = of_nat (Suc j)\<rparr>) [unat k..<unat hashIter]"
proof (induction plat hashIter ps h k fs rule: filterSetup_loop.induct)
  case (1 plat hashIter ps h k fs)
  show ?case
  proof (cases "k < hashIter")
    case True
    then have lt: "unat k < unat hashIter" by (simp add: word_less_nat_alt)
    have "[unat k..<unat hashIter] = unat k # [Suc (unat k)..<unat hashIter]"
      using lt by (simp add: upt_conv_Cons)
    then show ?thesis
      using True "1.IH" [OF True]
      by (subst filterSetup_loop.simps) (simp add: unat_succ_below [OF True])
  next
    case False
    then have "unat hashIter \<le> unat k" by (simp add: word_less_nat_alt)
    then show ?thesis
      using False by (subst filterSetup_loop.simps) simp
  qed
qed

lemma filterSetup_eq:
  "filterSetup plat sz hashIter w =
     (map (\<lambda>j. \<lparr>size_f = partition_size plat sz hashIter, storage = None,
                 hasher = next_hasher w, multiplier = of_nat (Suc j)\<rparr>) [0..<unat hashIter],
      w\<lparr>hashers := (hashers w)(next_hasher w := offset64), next_hasher := Suc (next_hasher w)\<rparr>)"
  by (simp add: filterSetup_def fnv_New64_def filterSetup_loop_eq partition_size_def Let_def)

section \<open>The sample filter\<close>

text \<open>\<^verbatim>\<open>NewRedis(pool, "x", 10, 2, 5)\<close> on the empty server, on any platform.\<close>

lemma partition_size_10_2: "partition_size plat 10 2 = 5"
  by (subst partition_exact) (simp_all add: ceil_div_def)

lemma decimal_1_2: "decimal (Suc 0) = ''1''" "decimal 2 = ''2''"
  by (simp_all add: decimal.simps digit_def)

lemma NewRedis_bloom0:
  "NewRedis plat ''x'' 10 2 5 world0 = ((bloom0, False, None), world_built)"
proof -
  have l: "[0..<5] = [0, 1, 2, 3, 4]" by (simp add: upt_rec)
  have u: "[0..<2] = [0, 1]" by (simp add: upt_rec)
  show ?thesis
    by (auto simp: NewRedis_def filterSetup_eq partition_size_10_2 u decimal_1_2
        NewRedisStorage_healthy world0_def world_built_def bloom0_def l bitmap_def)
qed

section \<open>The flush and the queue\<close>

text \<open>
  C3, as stated: after a flush the storage's queue is empty, and the next \<^verbatim>\<open>Save\<close> sends
  none of the flushed indices again. \<^verbatim>\<open>RedisStorage.Save\<close> never assigns \<^verbatim>\<open>s.queue\<close>:
  with index 2 queued, the queue still holds it after the flush, and a second flush sends
  \<^verbatim>\<open>SETBIT x.1 2 1\<close> once more.
\<close>

theorem Save_clears_queue_counterexample:
  "queue (fst (RedisStorage_Save store0 world0)) \<noteq> [] \<and>
   log (snd (RedisStorage_Save (fst (RedisStorage_Save store0 world0))
               (snd (RedisStorage_Save store0 world0))))
     = [SETBIT ''x.1'' 2 1, SETBIT ''x.1'' 2 1]"
  by (simp add: RedisStorage_Save_def store0_def world0_def pool_Get_def conn_Send_def
      conn_Flush_def)

text \<open>
  C3, amended: \<^verbatim>\<open>RedisStorage.Save\<close> leaves the storage, and so its queue, as it was;
  over working connections a second \<^verbatim>\<open>Save\<close> sends every queued index again, so the
  server receives the whole queue twice.
\<close>

theorem Save_keeps_queue:
  "fst (RedisStorage_Save s w) = s \<and>
   (faults w = [] \<longrightarrow>
      log (snd (RedisStorage_Save s (snd (RedisStorage_Save s w))))
        = log w @ map (\<lambda>b. SETBIT (key s) b 1) (queue s) @ map (\<lambda>b. SETBIT (key s) b 1) (queue s))"
proof (intro conjI impI)
  show "fst (RedisStorage_Save s w) = s"
    by (simp add: RedisStorage_Save_eq)
next
  assume h: "faults w = []"
  let ?cmds = "map (\<lambda>b. SETBIT (key s) b 1) (queue s)"
  let ?w1 = "snd (RedisStorage_Save s w)"
  have first: "log ?w1 = log w @ ?cmds" and h1: "faults ?w1 = []"
    using h by (simp_all add: RedisStorage_Save_eq flush_queue_def)
  have "log (snd (RedisStorage_Save s ?w1)) = log ?w1 @ ?cmds"
    using h1 by (simp add: RedisStorage_Save_eq [of s ?w1] flush_queue_def)
  then show "log (snd (RedisStorage_Save s ?w1)) = log w @ ?cmds @ ?cmds"
    by (simp add: first)
qed

theorem Save_keeps_queue_witness:
  "fst (RedisStorage_Save store0 world0) = store0 \<and>
   log (snd (RedisStorage_Save store0 (snd (RedisStorage_Save store0 world0))))
     = [SETBIT ''x.1'' 2 1, SETBIT ''x.1'' 2 1]"
  using Save_keeps_queue [of store0 world0] by (simp add: store0_def world0_def)

section \<open>\<^verbatim>\<open>Load\<close>\<close>

text \<open>
  C8: \<^verbatim>\<open>Load(values)\<close> is \<^verbatim>\<open>Add(values)\<close> followed at once by \<^verbatim>\<open>Save()\<close>: the filter and
  the world after \<^verbatim>\<open>Load\<close> are those after the two calls, and \<^verbatim>\<open>Load\<close> panics exactly
  when one of them does.
\<close>

theorem Load_is_Add_then_Save: "map_option snd (Load vals bf w) = Load_spec vals bf w"
proof (cases "Add vals bf w")
  case None
  then show ?thesis by (simp add: Load_def Load_spec_def)
next
  case (Some st)
  obtain bf1 w1 where st: "st = (bf1, w1)" by (cases st)
  show ?thesis
  proof (cases "Save bf1 w1")
    case None
    then show ?thesis using Some st by (simp add: Load_def Load_spec_def)
  next
    case (Some st')
    obtain bf2 w2 where "st' = (bf2, w2)" by (cases st')
    then show ?thesis
      using \<open>Add vals bf w = Some st\<close> st Some by (simp add: Load_def Load_spec_def)
  qed
qed

text \<open>
  C10: whatever the values and the filter's contents, a \<^verbatim>\<open>Load\<close> that returns gives the
  \<^verbatim>\<open>nil\<close> slice and the \<^verbatim>\<open>nil\<close> error; and it does return on every filter whose
  sub-filters have a storage and a partition size other than 0.
\<close>

theorem Load_returns_nil:
  "(\<forall>r bf' w'. Load vals bf w = Some (r, bf', w') \<longrightarrow> r = (None, None)) \<and>
   ((\<forall>f \<in> set (filters bf). usable f) \<longrightarrow>
      (\<exists>bf' w'. Load vals bf w = Some ((None, None), bf', w')))"
proof (intro conjI allI impI)
  fix r bf' w'
  assume "Load vals bf w = Some (r, bf', w')"
  then show "r = (None, None)"
    by (auto simp: Load_def split: bind_splits)
next
  assume u: "\<forall>f \<in> set (filters bf). usable f"
  from Add_loop_usable [OF u, of vals w] obtain w1 where
    a: "Add_loop (filters bf) vals w = Some (foldl (\<lambda>fs v. map (enqueue v) fs) (filters bf) vals, w1)"
    by blast
  have "\<forall>f \<in> set (foldl (\<lambda>fs v. map (enqueue v) fs) (filters bf) vals). storage f \<noteq> None"
    using usable_enqueue_all [OF u, of vals] by (simp add: usable_def)
  then show "\<exists>bf' w'. Load vals bf w = Some ((None, None), bf', w')"
    using a by (simp add: Load_def Add_def Save_def Save_loop_eq)
qed

theorem Load_returns_nil_witness:
  "\<exists>bf' w'. Load [[97], []] bloom0 world0 = Some ((None, None), bf', w')"
  using Load_returns_nil [of "[[97], []]" bloom0 world0]
  by (simp add: bloom0_def usable_def)

section \<open>Membership queries\<close>

text \<open>
  C5: in \<^verbatim>\<open>Exists\<close>, let the sub-filters before \<open>f\<close> all have reported their bit set, and
  let the storage query of \<open>f\<close> answer \<open>(ex, err)\<close>. If the bit is not set (\<open>ex\<close> is false,
  \<open>err\<close> is \<^verbatim>\<open>nil\<close>) the call returns \<open>(false, nil)\<close>; if the query fails, the call returns
  \<open>false\<close> with that error. In both cases the world returned is the one the query of \<open>f\<close>
  left: no sub-filter after \<open>f\<close> is hashed for or queried.
\<close>

theorem Exists_short_circuit:
  assumes "filters bf = pre @ f # post"
      and "Exists val (bf\<lparr>filters := pre\<rparr>) w = Some ((True, e0), w1)"
      and "hashValue f val w1 = Some ((a, b), w1')"
      and "umod (a + b * multiplier f) (size_f f) = Some i"
      and "storage f = Some s"
      and "RedisStorage_Exists s i w1' = ((ex, err), w2)"
      and "\<not> ex \<or> err \<noteq> None"
  shows "Exists val bf w = Some ((False, err), w2)"
proof -
  from assms(6,7) have ex: "\<not> ex"
    using RedisStorage_Exists_error by blast
  have step: "Exists_loop (f # post) val e0 w1 = Some ((False, err), w2)"
    using assms(3,4,5,6) ex by simp
  have "Exists_loop pre val None w = Some ((True, e0), w1)"
    using assms(2) by (simp add: Exists_def)
  then show ?thesis
    using step assms(1) by (simp add: Exists_def Exists_loop_append)
qed

theorem Exists_short_circuit_witness:
  "Exists [] bloom0 world0
     = Some ((False, None), world0\<lparr>hashers := (hashers world0)(0 := fnv64 []),
                                   log := [GETBIT ''x.1'' 2]\<rparr>) \<and>
   Exists [] bloom0 world_down
     = Some ((False, Some RedisError), world0\<lparr>hashers := (hashers world0)(0 := fnv64 [])\<rparr>)"
proof -
  have 1: "filters bloom0 = [] @ (filters bloom0 ! 0) # [filters bloom0 ! 1]"
    by (simp add: bloom0_def)
  have 2: "Exists [] (bloom0\<lparr>filters := []\<rparr>) w = Some ((True, None), w)" for w
    by (simp add: Exists_def)
  have 3: "hashValue (filters bloom0 ! 0) [] w
             = Some ((digest_a [], digest_b []), rehash 0 [] w)" for w
    by (simp add: hashValue_eq bloom0_def)
  have 4: "umod (digest_a [] + digest_b [] * multiplier (filters bloom0 ! 0))
             (size_f (filters bloom0 ! 0)) = Some 2"
    by code_simp
  have 5: "storage (filters bloom0 ! 0) = Some \<lparr>key = ''x.1'', size_s = 5, queue = []\<rparr>"
    by (simp add: bloom0_def)
  have 6: "RedisStorage_Exists \<lparr>key = ''x.1'', size_s = 5, queue = []\<rparr> 2 (rehash 0 [] world0)
             = ((False, None), world0\<lparr>hashers := (hashers world0)(0 := fnv64 []),
                                   log := [GETBIT ''x.1'' 2]\<rparr>)"
    by (simp add: RedisStorage_Exists_eq rehash_def world0_def bitmap_def)
  have 7: "RedisStorage_Exists \<lparr>key = ''x.1'', size_s = 5, queue = []\<rparr> 2 (rehash 0 [] world_down)
             = ((False, Some RedisError), world0\<lparr>hashers := (hashers world0)(0 := fnv64 [])\<rparr>)"
    by (simp add: RedisStorage_Exists_eq rehash_def world0_def world_down_def)
  have a: "Exists [] bloom0 world0
     = Some ((False, None), world0\<lparr>hashers := (hashers world0)(0 := fnv64 []),
                                   log := [GETBIT ''x.1'' 2]\<rparr>)"
    by (rule Exists_short_circuit [OF 1 2 3 4 5 6]) simp
  have b: "Exists [] bloom0 world_down
     = Some ((False, Some RedisError), world0\<lparr>hashers := (hashers world0)(0 := fnv64 [])\<rparr>)"
    by (rule Exists_short_circuit [OF 1 2 3 4 5 7]) simp
  from a b show ?thesis by (rule conjI)
qed

text \<open>
  C2, as stated, asks of \<^verbatim>\<open>Exist\<close> what \<^verbatim>\<open>Exists\<close> does: the entry of a value is false as
  soon as one sub-filter's bit is false. \<^verbatim>\<open>Exist\<close> overwrites \<^verbatim>\<open>exists[index]\<close> after
  every sub-filter and never leaves the loop on a false bit, so the entry is the answer of
  the last sub-filter. On the filter that \<^verbatim>\<open>NewRedis(pool, "x", 10, 2, 5)\<close> builds on the
  empty server, after \<^verbatim>\<open>Load("db")\<close>: the value \<^verbatim>\<open>"ab"\<close> shares with \<^verbatim>\<open>"db"\<close> the bit of
  sub-filter 2 and not that of sub-filter 1; \<^verbatim>\<open>Exists("ab")\<close> is \<open>(false, nil)\<close> and
  \<^verbatim>\<open>Exist("ab")\<close> is \<open>([true], nil)\<close>.
\<close>

theorem Exist_keeps_last_answer:
  "do {
     ((bf0, existed, err), w0) \<leftarrow> Some (NewRedis (\<lambda>x. 0) ''x'' 10 2 5 world0);
     (r, bf, w) \<leftarrow> Load [[100, 98]] bf0 w0;
     (single, w1) \<leftarrow> Exists [97, 98] bf w;
     (batch, w2) \<leftarrow> Exist [[97, 98]] bf w;
     Some (single, batch)
   } = Some ((False, None), (Some [True], None))"
proof -
  have "do {
     (r, bf, w) \<leftarrow> Load [[100, 98]] bloom0 world_built;
     (single, w1) \<leftarrow> Exists [97, 98] bf w;
     (batch, w2) \<leftarrow> Exist [[97, 98]] bf w;
     Some (single, batch)
   } = Some ((False, None), (Some [True], None))"
    by code_simp
  then show ?thesis
    by (simp add: NewRedis_bloom0)
qed

section \<open>Construction of a storage\<close>

text \<open>
  C6: over working connections \<^verbatim>\<open>NewRedisStorage\<close> reports whether the key existed, and
  sends \<^verbatim>\<open>EXISTS\<close> followed, exactly when the key did not exist, by \<^verbatim>\<open>SETBIT key i 0\<close>
  for every \<open>i\<close> below the size and by \<^verbatim>\<open>EXPIRE\<close>; then every bit of the key is 0, and a
  positive expiry is set on it when the size is not 0. When the key exists nothing of it is
  changed, whatever the state of the connections.
\<close>

theorem NewRedisStorage_zeroes_new_key_only:
  "(faults w = [] \<longrightarrow>
      (\<exists>w'. NewRedisStorage k sz secs w
               = ((\<lparr>key = k, size_s = sz, queue = []\<rparr>, db w k \<noteq> None, None), w') \<and>
            log w' = log w @ EXISTS k #
              (if db w k = None
               then map (\<lambda>j. SETBIT k (of_nat j) 0) [0..<unat sz] @ [EXPIRE k secs] else []) \<and>
            (db w k = None \<longrightarrow> bitmap w' k = {}) \<and>
            (db w k = None \<and> sz \<noteq> 0 \<and> 0 < sint secs \<longrightarrow> ttl w' k = Some (sint secs)) \<and>
            (db w k \<noteq> None \<longrightarrow> db w' = db w \<and> ttl w' = ttl w))) \<and>
   (db w k \<noteq> None \<longrightarrow> db (snd (NewRedisStorage k sz secs w)) = db w
                       \<and> ttl (snd (NewRedisStorage k sz secs w)) = ttl w)"
proof (intro conjI impI)
  assume h: "faults w = []"
  let ?w1 = "w\<lparr>log := log w @ [EXISTS k]\<rparr>"
  let ?zero = "map (\<lambda>j. SETBIT k (of_nat j) 0) [0..<unat sz]"
  show "\<exists>w'. NewRedisStorage k sz secs w
               = ((\<lparr>key = k, size_s = sz, queue = []\<rparr>, db w k \<noteq> None, None), w') \<and>
            log w' = log w @ EXISTS k #
              (if db w k = None then ?zero @ [EXPIRE k secs] else []) \<and>
            (db w k = None \<longrightarrow> bitmap w' k = {}) \<and>
            (db w k = None \<and> sz \<noteq> 0 \<and> 0 < sint secs \<longrightarrow> ttl w' k = Some (sint secs)) \<and>
            (db w k \<noteq> None \<longrightarrow> db w' = db w \<and> ttl w' = ttl w)"
  proof (cases "db w k = None")
    case True
    have nz: "sz \<noteq> 0 \<Longrightarrow> [0..<unat sz] \<noteq> []"
      by (simp add: unat_gt_0)
    have "db ?w1 k = None" using True by simp
    from bitmap_after_init [OF this] expiry_after_init [OF this] nz True
    show ?thesis
      by (simp add: NewRedisStorage_healthy [OF h])
  next
    case False
    then show ?thesis
      by (auto simp: NewRedisStorage_healthy [OF h])
  qed
next
  assume "db w k \<noteq> None"
  then show "db (snd (NewRedisStorage k sz secs w)) = db w"
    by (rule NewRedisStorage_existing_key)
next
  assume "db w k \<noteq> None"
  then show "ttl (snd (NewRedisStorage k sz secs w)) = ttl w"
    by (rule NewRedisStorage_existing_key)
qed

theorem NewRedisStorage_zeroes_new_key_only_witness:
  "fst (NewRedisStorage ''x.1'' 3 60 world0) = (\<lparr>key = ''x.1'', size_s = 3, queue = []\<rparr>, False, None) \<and>
   log (snd (NewRedisStorage ''x.1'' 3 60 world0))
     = [EXISTS ''x.1'', SETBIT ''x.1'' 0 0, SETBIT ''x.1'' 1 0, SETBIT ''x.1'' 2 0, EXPIRE ''x.1'' 60] \<and>
   bitmap (snd (NewRedisStorage ''x.1'' 3 60 world0)) ''x.1'' = {} \<and>
   ttl (snd (NewRedisStorage ''x.1'' 3 60 world0)) ''x.1'' = Some 60 \<and>
   fst (NewRedisStorage ''x.1'' 3 60 world1) = (\<lparr>key = ''x.1'', size_s = 3, queue = []\<rparr>, True, None) \<and>
   log (snd (NewRedisStorage ''x.1'' 3 60 world1)) = [EXISTS ''x.1''] \<and>
   db (snd (NewRedisStorage ''x.1'' 3 60 world1)) = db world1"
proof -
  have w0: "faults world0 = []" "db world0 ''x.1'' = None" "log world0 = []"
    by (simp_all add: world0_def)
  have w1: "faults world1 = []" "db world1 ''x.1'' \<noteq> None" "log world1 = []"
    by (simp_all add: world0_def world1_def)
  have l: "[0..<3] = [0, 1, Suc 1]"
    by (simp add: upt_rec)
  show ?thesis
    using NewRedisStorage_zeroes_new_key_only [of world0 "''x.1''" 3 60]
      NewRedisStorage_zeroes_new_key_only [of world1 "''x.1''" 3 60]
    by (auto simp: w0 w1 l)
qed

section \<open>The layout of a filter\<close>

lemma ceil_div_unat:
  assumes "unat (sz :: uint) < 2 ^ 53" "hashIter \<noteq> (0 :: uint)"
  shows "unat (of_nat (ceil_div (unat sz) (unat hashIter)) :: uint) = ceil_div (unat sz) (unat hashIter)"
proof -
  have q: "0 < unat hashIter" using assms(2) by (simp add: unat_gt_0)
  have "ceil_div (unat sz) (unat hashIter) \<le> unat sz"
  proof (cases "unat sz = 0")
    case True
    then show ?thesis using q by (simp add: ceil_div_def)
  next
    case False
    then show ?thesis using q by (simp add: ceil_div_le)
  qed
  moreover have "(2::nat) ^ 53 < 2 ^ 64" by simp
  ultimately have "ceil_div (unat sz) (unat hashIter) < 2 ^ 64" using assms(1) by linarith
  then show ?thesis by (simp add: unat_of_nat)
qed

text \<open>
  C7, as stated: every sub-filter has the partition size \<open>\<lceil>m / k\<rceil>\<close>. \<^verbatim>\<open>filterSetup\<close>
  divides in \<^verbatim>\<open>float64\<close>, which holds 53 significant bits: for \<open>m = 2 ^ 53 + 1\<close> and
  \<open>k = 1\<close> the conversion of \<open>m\<close> rounds to \<open>2 ^ 53\<close>, and that is the partition size.
\<close>

theorem filterSetup_partition_counterexample:
  "map (\<lambda>f. unat (size_f f)) (fst (filterSetup (\<lambda>x. 0) 9007199254740993 1 world0))
     = [9007199254740992] \<and>
   ceil_div (unat (9007199254740993 :: uint)) (unat (1 :: uint)) = 9007199254740993"
proof -
  have b: "bitlen 9007199254740993 = 54"
    by (simp add: bitlen.simps)
  have m: "float64_of_uint 9007199254740993 = Finite 9007199254740992 0"
    by (simp add: float64_of_uint_def b rne_def Let_def)
  have k: "float64_of_uint 1 = Finite 1 0"
    by (simp add: float64_of_uint_def Let_def)
  have p: "partition_size (\<lambda>x. 0) 9007199254740993 1 = 9007199254740992"
    by (simp add: partition_size_def m k round_quot_def scale_up.simps scale_down.simps
        rne_def Let_def)
  show ?thesis
    by (simp add: filterSetup_eq p ceil_div_def)
qed

text \<open>
  C7, amended: \<^verbatim>\<open>filterSetup(m, k)\<close> gives exactly \<open>k\<close> sub-filters with the multipliers
  \<open>1, \<dots>, k\<close> in this order, all with the same partition size, the same freshly made
  hasher and no storage; the partition size is the \<^verbatim>\<open>float64\<close> quotient rounded up, which is
  \<open>\<lceil>m / k\<rceil>\<close> whenever \<open>m < 2 ^ 53\<close>. No later operation changes the layout: \<^verbatim>\<open>Append\<close>,
  \<^verbatim>\<open>Add\<close> and \<^verbatim>\<open>Load\<close> keep every partition size, hasher and multiplier, \<^verbatim>\<open>Save\<close> keeps
  the whole filter (\<^verbatim>\<open>Exists\<close> and \<^verbatim>\<open>Exist\<close> return no filter).
\<close>

theorem filterSetup_layout:
  "(filterSetup plat sz hashIter w = (fs, w') \<longrightarrow>
      length fs = unat hashIter \<and>
      map (\<lambda>f. unat (multiplier f)) fs = [1..<Suc (unat hashIter)] \<and>
      (\<forall>f \<in> set fs. size_f f = partition_size plat sz hashIter \<and> hasher f = next_hasher w
                      \<and> storage f = None) \<and>
      (unat sz < 2 ^ 53 \<longrightarrow> (\<forall>f \<in> set fs. unat (size_f f) = ceil_div (unat sz) (unat hashIter))) \<and>
      hashers w' (next_hasher w) = offset64) \<and>
   (Append val bf v = Some (bf1, v1) \<longrightarrow> layout bf1 = layout bf) \<and>
   (Add vals bf v = Some (bf2, v2) \<longrightarrow> layout bf2 = layout bf) \<and>
   (Save bf v = Some (bf3, v3) \<longrightarrow> bf3 = bf) \<and>
   (Load vals bf v = Some (r, bf4, v4) \<longrightarrow> layout bf4 = layout bf)"
proof (intro conjI impI)
  assume a: "filterSetup plat sz hashIter w = (fs, w')"
  let ?mk = "\<lambda>j. \<lparr>size_f = partition_size plat sz hashIter, storage = None,
                  hasher = next_hasher w, multiplier = of_nat (Suc j) :: uint\<rparr>"
  have fs: "fs = map ?mk [0..<unat hashIter]"
    and w': "w' = w\<lparr>hashers := (hashers w)(next_hasher w := offset64),
                     next_hasher := Suc (next_hasher w)\<rparr>"
    using a by (simp_all add: filterSetup_eq)
  show "length fs = unat hashIter" by (simp add: fs)
  have "map (\<lambda>f. unat (multiplier f)) fs = map Suc [0..<unat hashIter]"
    by (simp add: fs unat_multiplier del: of_nat_Suc)
  then show "map (\<lambda>f. unat (multiplier f)) fs = [1..<Suc (unat hashIter)]"
    by (simp only: map_Suc_upt One_nat_def)
  show "\<forall>f \<in> set fs. size_f f = partition_size plat sz hashIter \<and> hasher f = next_hasher w
                      \<and> storage f = None"
    by (auto simp: fs)
  show "hashers w' (next_hasher w) = offset64" by (simp add: w')
  show "\<forall>f \<in> set fs. unat (size_f f) = ceil_div (unat sz) (unat hashIter)" if s: "unat sz < 2 ^ 53"
  proof (cases "hashIter = 0")
    case True
    then show ?thesis by (simp add: fs)
  next
    case False
    from partition_exact [OF s False] ceil_div_unat [OF s False]
    have "unat (partition_size plat sz hashIter) = ceil_div (unat sz) (unat hashIter)"
      by simp
    then show ?thesis by (auto simp: fs)
  qed
next
  assume "Append val bf v = Some (bf1, v1)"
  then show "layout bf1 = layout bf" by (rule Append_layout)
next
  assume "Add vals bf v = Some (bf2, v2)"
  then show "layout bf2 = layout bf" by (rule Add_layout)
next
  assume "Save bf v = Some (bf3, v3)"
  then show "bf3 = bf" by (rule Save_same)
next
  assume "Load vals bf v = Some (r, bf4, v4)"
  then show "layout bf4 = layout bf" by (rule Load_layout)
qed


theorem filterSetup_layout_witness:
  "unat (10 :: uint) < 2 ^ 53 \<and>
   map (\<lambda>f. (unat (size_f f), unat (multiplier f), hasher f))
       (fst (filterSetup (\<lambda>x. 0) 10 2 world0)) = [(5, 1, 0), (5, 2, 0)] \<and>
   map_option (\<lambda>r. layout (fst r)) (Append [97] bloom0 world0) = Some (layout bloom0)"
proof -
  define fs where "fs = fst (filterSetup (\<lambda>x. 0) 10 2 world0)"
  define w' where "w' = snd (filterSetup (\<lambda>x. 0) 10 2 world0)"
  obtain bf1 v1 where ap: "Append [97] bloom0 world0 = Some (bf1, v1)"
    by (simp add: Append_def Append_loop_eq bloom0_def usable_def)
  have run: "filterSetup (\<lambda>x. 0) 10 2 world0 = (fs, w')"
    by (simp add: fs_def w'_def)
  have small: "unat (10 :: uint) < 2 ^ 53" by simp
  note t = filterSetup_layout [of "\<lambda>x. 0" 10 2 world0 fs w' "[97]" bloom0 world0 bf1 v1]
  note c = t [THEN conjunct1, THEN mp, OF run]
  have len: "length fs = unat (2 :: uint)" using c by blast
  have mult: "map (\<lambda>f. unat (multiplier f)) fs = [1..<Suc (unat (2 :: uint))]" using c by blast
  have each: "\<forall>f \<in> set fs. hasher f = next_hasher world0" using c by blast
  have sizes: "\<forall>f \<in> set fs. unat (size_f f) = ceil_div (unat (10 :: uint)) (unat (2 :: uint))"
    using c small by blast
  from t ap have lay: "layout bf1 = layout bloom0" by simp
  have u: "unat (2 :: uint) = 2" "unat (10 :: uint) = 10" by simp_all
  have "length fs = Suc (Suc 0)" using len by (simp only: u numeral_2_eq_2)
  then obtain a b where ab: "fs = [a, b]"
    by (auto simp: length_Suc_conv)
  have "[1..<Suc 2] = [1, 2]" by (simp add: upt_rec)
  then have "map (\<lambda>f. (unat (size_f f), unat (multiplier f), hasher f)) fs = [(5, 1, 0), (5, 2, 0)]"
    using mult each sizes by (simp add: ab u ceil_div_def world0_def)
  then show ?thesis
    using small lay ap by (simp add: fs_def)
qed

section \<open>The bit index\<close>

lemma unat_digest_a: "unat (digest_a val) = unat (fnv64 val) div 2 ^ 32"
proof -
  have "unat (fnv64 val) < 2 ^ 64" using unsigned_less [of "fnv64 val"] by simp
  then have "unat (fnv64 val) div 2 ^ 32 < 2 ^ 32" by (simp add: less_mult_imp_div_less)
  then show ?thesis
    by (simp add: digest_a_def unsigned_ucast_eq unat_drop_bit_eq drop_bit_eq_div take_bit_eq_mod
        unat_mod_distrib unat_div_distrib)
qed

lemma unat_digest_b: "unat (digest_b val) = unat (fnv64 val) mod 2 ^ 32"
  by (simp add: digest_b_def unsigned_ucast_eq take_bit_eq_mod unat_mod_distrib)

lemma unat_index_of:
  "unat (index_of f val) = index_wrap (unat (multiplier f)) (unat (size_f f)) val"
proof -
  have "unat (digest_a val + digest_b val * multiplier f)
          = (unat (digest_a val) + unat (digest_b val) * unat (multiplier f)) mod 2 ^ 64"
    by (simp add: unat_word_ariths mod_add_right_eq)
  then show ?thesis
    by (simp add: index_of_def unat_mod_distrib index_wrap_def unat_digest_a unat_digest_b
        Let_def mult.commute)
qed

lemma index_no_wrap:
  assumes "i < 2 ^ 32"
  shows "index_wrap i n val = index_spec i n val"
proof -
  define a where "a = unat (fnv64 val) div 2 ^ 32"
  define b where "b = unat (fnv64 val) mod 2 ^ 32"
  have "unat (fnv64 val) < 2 ^ 64" using unsigned_less [of "fnv64 val"] by simp
  then have a: "a < 2 ^ 32" by (simp add: a_def less_mult_imp_div_less)
  have b: "b < 2 ^ 32" by (simp add: b_def)
  have "i \<le> 2 ^ 32 - 1" using assms by simp
  then have "i * b \<le> (2 ^ 32 - 1) * b" by (rule mult_le_mono1)
  also have "\<dots> \<le> (2 ^ 32 - 1) * 2 ^ 32" using b by (intro mult_le_mono2) simp
  finally have "a + i * b < 2 ^ 32 + (2 ^ 32 - 1) * 2 ^ 32" using a by linarith
  then have "a + i * b < 2 ^ 64" by simp
  then have "(a + i * b) mod 2 ^ 64 = a + i * b" by (rule mod_less)
  then show ?thesis
    unfolding index_wrap_def index_spec_def Let_def a_def b_def by (simp only:)
qed

text \<open>
  C4, as stated: the index is \<open>(a + i * b) mod partitionSize\<close>. The code computes
  \<^verbatim>\<open>(a + b*f.multiplier) % f.size\<close> in \<^verbatim>\<open>uint\<close>, where the product wraps modulo \<open>2 ^ 64\<close>.
  \<^verbatim>\<open>filterSetup(3 * 2^33, 2^33)\<close> gives its last sub-filter the partition size 3 and the
  multiplier \<open>2 ^ 33\<close>; for the empty value the code's index is 2, the formula's is 0.
\<close>

theorem bit_index_counterexample:
  "(let f = fst (filterSetup (\<lambda>x. 0) 25769803776 8589934592 world0) ! 8589934591
    in (size_f f, multiplier f, map_option fst (hashValue f [] world0),
        umod (3421674724 + 2216829733 * multiplier f) (size_f f)))
     = (3, 8589934592, Some (3421674724, 2216829733), Some 2) \<and>
   index_spec 8589934592 3 [] = 0"
proof -
  have p: "partition_size (\<lambda>x. 0) 25769803776 8589934592 = 3"
    by (subst partition_exact) (simp_all add: ceil_div_def)
  have a: "digest_a [] = 3421674724" by code_simp
  have b: "digest_b [] = 2216829733" by code_simp
  have d: "unat (fnv64 []) = 14695981039346656037"
    by (simp add: fnv64_def fnv_write_def offset64_def)
  have s: "index_spec 8589934592 3 [] = 0"
    by (simp add: index_spec_def d Let_def)
  have f: "fst (filterSetup (\<lambda>x. 0) 25769803776 8589934592 world0) ! 8589934591
     = \<lparr>size_f = 3, storage = None, hasher = 0, multiplier = 8589934592\<rparr>"
    by (simp add: filterSetup_eq p world0_def)
  show ?thesis
    by (simp add: f s hashValue_eq a b umod_def Let_def)
qed


text \<open>
  C4, amended: for a sub-filter with a storage and a partition size other than 0 (a
  partition size 0 panics), \<^verbatim>\<open>Append\<close>, \<^verbatim>\<open>Add\<close>, \<^verbatim>\<open>Exists\<close> and \<^verbatim>\<open>Exist\<close> all hand the
  storage one and the same index \<open>i\<close>: it is queued by the insertions and queried by the
  membership tests. With \<open>a\<close> and \<open>b\<close> the first and second big-endian 32-bit word of the
  digest, \<open>i\<close> is \<open>((a + i * b) mod 2 ^ 64) mod partitionSize\<close>, which is
  \<open>(a + i * b) mod partitionSize\<close> for every multiplier below \<open>2 ^ 32\<close>.
\<close>

theorem bit_index_formula:
  assumes "size_f f \<noteq> 0" and "storage f = Some s"
  shows "\<exists>i. Append_loop [f] val w
               = Some ([f\<lparr>storage := Some (RedisStorage_Append s i)\<rparr>], rehash (hasher f) val w) \<and>
             Add_filters [f] val w = Append_loop [f] val w \<and>
             Exists_loop [f] val e w = Some (RedisStorage_Exists s i (rehash (hasher f) val w)) \<and>
             Exist_filters [f] val cur w
               = Some (case RedisStorage_Exists s i (rehash (hasher f) val w) of
                         ((ex, err), w2) \<Rightarrow> ((if err = None then ex else cur, err), w2)) \<and>
             unat i = index_wrap (unat (multiplier f)) (unat (size_f f)) val \<and>
             (unat (multiplier f) < 2 ^ 32 \<longrightarrow>
                unat i = index_spec (unat (multiplier f)) (unat (size_f f)) val)"
proof (intro exI [of _ "index_of f val"] conjI impI)
  have u: "umod (digest_a val + digest_b val * multiplier f) (size_f f) = Some (index_of f val)"
    using assms(1) by (simp add: umod_def index_of_def)
  show "Append_loop [f] val w
          = Some ([f\<lparr>storage := Some (RedisStorage_Append s (index_of f val))\<rparr>],
                  rehash (hasher f) val w)"
    using assms(2) by (simp add: hashValue_eq u)
  show "Add_filters [f] val w = Append_loop [f] val w"
    by (rule Add_filters_eq)
  show "Exists_loop [f] val e w
          = Some (RedisStorage_Exists s (index_of f val) (rehash (hasher f) val w))"
    using assms(2) by (simp add: hashValue_eq u split: prod.splits)
  show "Exist_filters [f] val cur w
          = Some (case RedisStorage_Exists s (index_of f val) (rehash (hasher f) val w) of
                    ((ex, err), w2) \<Rightarrow> ((if err = None then ex else cur, err), w2))"
    using assms(2) by (auto simp: hashedValue_eq hashValue_eq u split: prod.splits)
  show "unat (index_of f val) = index_wrap (unat (multiplier f)) (unat (size_f f)) val"
    by (rule unat_index_of)
  show "unat (index_of f val) = index_spec (unat (multiplier f)) (unat (size_f f)) val"
    if "unat (multiplier f) < 2 ^ 32"
    using that by (simp add: unat_index_of index_no_wrap)
qed

theorem bit_index_formula_witness:
  "index_spec 1 5 [] = 2 \<and>
   Append_loop [filter0] [] world0
     = Some ([filter0\<lparr>storage := Some \<lparr>key = ''x.1'', size_s = 5, queue = [2]\<rparr>\<rparr>],
             rehash 0 [] world0) \<and>
   Exists_loop [filter0] [] None world0
     = Some (RedisStorage_Exists \<lparr>key = ''x.1'', size_s = 5, queue = []\<rparr> 2 (rehash 0 [] world0))"
proof -
  have d: "unat (fnv64 []) = 14695981039346656037"
    by (simp add: fnv64_def fnv_write_def offset64_def)
  have s: "index_spec 1 5 [] = 2"
    by (simp add: index_spec_def d Let_def)
  have z: "size_f filter0 \<noteq> 0"
    and st: "storage filter0 = Some \<lparr>key = ''x.1'', size_s = 5, queue = []\<rparr>"
    and m: "unat (multiplier filter0) = 1" "unat (size_f filter0) = 5" "hasher filter0 = 0"
    by (simp_all add: filter0_def)
  from bit_index_formula [OF z st, of "[]" world0 None False]
  obtain i where
    a: "Append_loop [filter0] [] world0
          = Some ([filter0\<lparr>storage := Some (RedisStorage_Append \<lparr>key = ''x.1'', size_s = 5, queue = []\<rparr> i)\<rparr>],
                  rehash (hasher filter0) [] world0)"
    and e: "Exists_loop [filter0] [] None world0
          = Some (RedisStorage_Exists \<lparr>key = ''x.1'', size_s = 5, queue = []\<rparr> i
                    (rehash (hasher filter0) [] world0))"
    and i: "unat (multiplier filter0) < 2 ^ 32 \<longrightarrow>
              unat i = index_spec (unat (multiplier filter0)) (unat (size_f filter0)) []"
    by blast
  have "unat (multiplier filter0) < 2 ^ 32" by (simp add: m)
  with i have "unat i = index_spec (unat (multiplier filter0)) (unat (size_f filter0)) []" by blast
  then have "unat i = 2" by (simp only: m s)
  then have "i = 2" by (simp add: word_unat_eq_iff)
  then show ?thesis
    using a e s by (simp add: m RedisStorage_Append_def)
qed

section \<open>Runs of a client\<close>

lemma grows_refl: "usable f \<Longrightarrow> grows f f"
  by (auto simp: grows_def usable_def)

lemma grows_trans: "grows f g \<Longrightarrow> grows g h \<Longrightarrow> grows f h"
  by (auto simp: grows_def split: option.splits)

lemma grows_usable: "grows f g \<Longrightarrow> usable f \<Longrightarrow> usable g"
  by (auto simp: grows_def usable_def split: option.splits)

lemma grows_index: "grows f g \<Longrightarrow> index_of g val = index_of f val"
  by (simp add: grows_def index_of_def)

lemma grows_enqueue: "usable f \<Longrightarrow> grows f (enqueue val f)"
  by (auto simp: grows_def usable_def enqueue_def RedisStorage_Append_def)

lemma all_grows_refl: "\<forall>f \<in> set fs. usable f \<Longrightarrow> list_all2 grows fs fs"
  by (simp add: list_all2_same grows_refl)

lemma all_grows_trans:
  "list_all2 grows fs gs \<Longrightarrow> list_all2 grows gs hs \<Longrightarrow> list_all2 grows fs hs"
  by (rule list_all2_trans [where ?P1.0 = grows and ?P2.0 = grows]) (auto intro: grows_trans)

lemma all_grows_usable:
  "list_all2 grows fs gs \<Longrightarrow> \<forall>f \<in> set fs. usable f \<Longrightarrow> \<forall>g \<in> set gs. usable g"
  by (induction rule: list_all2_induct) (auto intro: grows_usable)

lemma all_grows_enqueue: "\<forall>f \<in> set fs. usable f \<Longrightarrow> list_all2 grows fs (map (enqueue val) fs)"
  by (induction fs) (simp_all add: grows_enqueue)

lemma queued_enqueue: "\<forall>f \<in> set fs. usable f \<Longrightarrow> queued (map (enqueue val) fs) val"
  by (auto simp: queued_def usable_def enqueue_def index_of_def RedisStorage_Append_def)

lemma queued_grows: "list_all2 grows fs gs \<Longrightarrow> queued fs val \<Longrightarrow> queued gs val"
proof (induction rule: list_all2_induct)
  case Nil
  then show ?case by (simp add: queued_def)
next
  case (Cons f fs g gs)
  from Cons.hyps(1) Cons.prems have "\<exists>s. storage g = Some s \<and> index_of g val \<in> set (queue s)"
    by (auto simp: queued_def grows_def index_of_def split: option.splits)
  moreover have "queued gs val" using Cons by (simp add: queued_def)
  ultimately show ?case by (simp add: queued_def)
qed

lemma stored_grows:
  "list_all2 grows fs gs \<Longrightarrow> \<forall>k. bitmap w k \<subseteq> bitmap w' k \<Longrightarrow> stored fs w val \<Longrightarrow>
   stored gs w' val"
proof (induction rule: list_all2_induct)
  case Nil
  then show ?case by (simp add: stored_def)
next
  case (Cons f fs g gs)
  from Cons.hyps(1) Cons.prems
  have "\<exists>s. storage g = Some s \<and> unat (index_of g val) \<in> bitmap w' (key s)"
    by (auto simp: stored_def grows_def index_of_def split: option.splits)
  moreover have "stored gs w' val" using Cons by (simp add: stored_def)
  ultimately show ?case by (simp add: stored_def)
qed

lemma rehash_all_fields:
  "db (foldl (\<lambda>w f. rehash (hasher f) val w) w fs) = db w"
  "faults (foldl (\<lambda>w f. rehash (hasher f) val w) w fs) = faults w"
  "ttl (foldl (\<lambda>w f. rehash (hasher f) val w) w fs) = ttl w"
  by (induction fs arbitrary: w) simp_all

lemma Add_loop_grows:
  assumes "\<forall>f \<in> set fs. usable f"
  shows "\<exists>fs' w'. Add_loop fs vals w = Some (fs', w') \<and> list_all2 grows fs fs' \<and>
           db w' = db w \<and> ttl w' = ttl w \<and> faults w' = faults w \<and>
           (val \<in> set vals \<longrightarrow> queued fs' val)"
  using assms
proof (induction vals arbitrary: fs w)
  case Nil
  then show ?case by (simp add: all_grows_refl)
next
  case (Cons v vals)
  let ?fs1 = "map (enqueue v) fs"
  let ?w1 = "foldl (\<lambda>w f. rehash (hasher f) v w) w fs"
  have u1: "\<forall>f \<in> set ?fs1. usable f" using Cons.prems by simp
  have step: "Add_filters fs v w = Some (?fs1, ?w1)"
    using Cons.prems by (simp add: Add_filters_eq Append_loop_eq)
  from Cons.IH [OF u1, of ?w1] obtain fs' w' where
    r: "Add_loop ?fs1 vals ?w1 = Some (fs', w')" and g: "list_all2 grows ?fs1 fs'"
    and d: "db w' = db ?w1" "ttl w' = ttl ?w1" "faults w' = faults ?w1"
    and q: "val \<in> set vals \<longrightarrow> queued fs' val"
    by blast
  have g0: "list_all2 grows fs fs'"
    using all_grows_enqueue [OF Cons.prems] g by (rule all_grows_trans)
  have "val \<in> set (v # vals) \<longrightarrow> queued fs' val"
  proof (cases "val = v")
    case True
    from g queued_enqueue [OF Cons.prems, of v] have "queued fs' v"
      by (rule queued_grows)
    then show ?thesis by (simp add: True)
  next
    case False
    then show ?thesis using q by simp
  qed
  then show ?case
    using step r g0 d by (simp add: rehash_all_fields del: set_simps)
qed

lemma flush_queue_fields:
  "faults (flush_queue s w) = faults w" "ttl (flush_queue s w) = ttl w"
  "bitmap (flush_queue s w) k = (if k = key s then bitmap w k \<union> unat ` set (queue s) else bitmap w k)"
  by (simp_all add: flush_queue_def ttl_setbits bitmap_setbits)

lemma bitmap_faults [simp]: "bitmap (w\<lparr>faults := x\<rparr>) k = bitmap w k"
  by (simp add: bitmap_def)

lemma Save_one_mono: "bitmap w k \<subseteq> bitmap (snd (RedisStorage_Save s w)) k"
  by (auto simp: RedisStorage_Save_eq flush_queue_fields split: list.splits)

lemma Save_one_healthy:
  "faults w = [] \<Longrightarrow> faults (snd (RedisStorage_Save s w)) = [] \<and>
     unat ` set (queue s) \<subseteq> bitmap (snd (RedisStorage_Save s w)) (key s)"
  by (auto simp: RedisStorage_Save_eq flush_queue_fields)

lemma save_all_mono: "bitmap w k \<subseteq> bitmap (save_all fs w) k"
proof (induction fs arbitrary: w)
  case Nil
  show ?case by (simp add: save_all_def)
next
  case (Cons f fs)
  have "bitmap w k \<subseteq> bitmap (snd (RedisStorage_Save (the (storage f)) w)) k"
    by (rule Save_one_mono)
  also have "\<dots> \<subseteq> bitmap (save_all fs (snd (RedisStorage_Save (the (storage f)) w))) k"
    by (rule Cons.IH)
  finally show ?case by (simp add: save_all_def)
qed

lemma save_all_healthy:
  "faults w = [] \<Longrightarrow> faults (save_all fs w) = [] \<and>
     (\<forall>f \<in> set fs. \<forall>s. storage f = Some s \<longrightarrow> unat ` set (queue s) \<subseteq> bitmap (save_all fs w) (key s))"
proof (induction fs arbitrary: w)
  case Nil
  then show ?case by (simp add: save_all_def)
next
  case (Cons f fs)
  let ?w1 = "snd (RedisStorage_Save (the (storage f)) w)"
  have e: "save_all (f # fs) w = save_all fs ?w1" by (simp add: save_all_def)
  from Save_one_healthy [OF Cons.prems, of "the (storage f)"]
  have h: "faults ?w1 = []"
    and b: "unat ` set (queue (the (storage f))) \<subseteq> bitmap ?w1 (key (the (storage f)))"
    by simp_all
  from Cons.IH [OF h] have
    1: "faults (save_all fs ?w1) = []" and
    2: "\<forall>g \<in> set fs. \<forall>s. storage g = Some s \<longrightarrow> unat ` set (queue s) \<subseteq> bitmap (save_all fs ?w1) (key s)"
    by simp_all
  have 3: "\<forall>s. storage f = Some s \<longrightarrow> unat ` set (queue s) \<subseteq> bitmap (save_all fs ?w1) (key s)"
    using b save_all_mono [of ?w1 _ fs] by fastforce
  show ?case using 1 2 3 by (simp add: e)
qed

lemma Save_stored:
  assumes "faults w = []" "queued fs val"
  shows "stored fs (save_all fs w) val"
  using save_all_healthy [OF assms(1), of fs] assms(2)
  by (fastforce simp: stored_def queued_def)

lemma bitmap_rehash [simp]: "bitmap (rehash h val w) k = bitmap w k"
  by (simp add: bitmap_def)

lemma bitmap_log [simp]: "bitmap (w\<lparr>log := x\<rparr>) k = bitmap w k"
  by (simp add: bitmap_def)

lemma stored_cong: "(\<And>k. bitmap w' k = bitmap w k) \<Longrightarrow> stored fs w' val = stored fs w val"
  by (simp add: stored_def)

lemma Exists_loop_stored:
  "\<forall>f \<in> set fs. usable f \<Longrightarrow> faults w = [] \<Longrightarrow> stored fs w val \<Longrightarrow>
   \<exists>w'. Exists_loop fs val None w = Some ((True, None), w')"
proof (induction fs arbitrary: w)
  case Nil
  show ?case by simp
next
  case (Cons f fs)
  from Cons.prems(1) obtain s where s: "storage f = Some s" and z: "size_f f \<noteq> 0"
    by (auto simp: usable_def)
  have bit: "unat (index_of f val) \<in> bitmap w (key s)"
    using Cons.prems(3) s by (simp add: stored_def)
  let ?w2 = "(rehash (hasher f) val w)\<lparr>log := log w @ [GETBIT (key s) (index_of f val)]\<rparr>"
  have q: "RedisStorage_Exists s (index_of f val) (rehash (hasher f) val w) = ((True, None), ?w2)"
    using Cons.prems(2) bit by (simp add: RedisStorage_Exists_eq)
  have "stored fs ?w2 val"
    using Cons.prems(3) by (simp add: stored_def)
  moreover have "faults ?w2 = []" using Cons.prems(2) by simp
  moreover have "\<forall>f \<in> set fs. usable f" using Cons.prems(1) by simp
  ultimately obtain w' where "Exists_loop fs val None ?w2 = Some ((True, None), w')"
    using Cons.IH by blast
  then show ?case
    using s z q by (simp add: hashValue_eq umod_def index_of_def)
qed

lemma RedisStorage_Exists_db: "db (snd (RedisStorage_Exists s i w)) = db w"
  by (cases "faults w") (simp_all add: RedisStorage_Exists_eq)

lemma RedisStorage_Exists_healthy:
  "faults w = [] \<Longrightarrow> faults (snd (RedisStorage_Exists s i w)) = []"
  by (auto simp: RedisStorage_Exists_eq)

lemma Exists_loop_keeps:
  "\<forall>f \<in> set fs. usable f \<Longrightarrow> faults w = [] \<Longrightarrow>
   \<exists>r w'. Exists_loop fs val e w = Some (r, w') \<and> db w' = db w \<and> faults w' = []"
proof (induction fs arbitrary: w e)
  case Nil
  then show ?case by auto
next
  case (Cons f fs)
  from Cons.prems(1) obtain s where s: "storage f = Some s" and z: "size_f f \<noteq> 0"
    by (auto simp: usable_def)
  let ?w1 = "rehash (hasher f) val w"
  obtain ex err w2 where q: "RedisStorage_Exists s (index_of f val) ?w1 = ((ex, err), w2)"
    by (metis prod.exhaust)
  have k: "db w2 = db w" "faults w2 = []"
    using RedisStorage_Exists_db [of s "index_of f val" ?w1]
      RedisStorage_Exists_healthy [of ?w1 s "index_of f val"] Cons.prems(2) q by simp_all
  have u: "\<forall>f \<in> set fs. usable f" using Cons.prems(1) by simp
  from Cons.IH [OF u k(2), of err] obtain r w' where
    "Exists_loop fs val err w2 = Some (r, w')" "db w' = db w2" "faults w' = []" by blast
  then show ?case
    using s z q k by (auto simp: hashValue_eq umod_def index_of_def)
qed

lemma Exist_filters_keeps:
  "\<forall>f \<in> set fs. usable f \<Longrightarrow> faults w = [] \<Longrightarrow>
   \<exists>r w'. Exist_filters fs val cur w = Some (r, w') \<and> db w' = db w \<and> faults w' = []"
proof (induction fs arbitrary: w cur)
  case Nil
  then show ?case by auto
next
  case (Cons f fs)
  from Cons.prems(1) obtain s where s: "storage f = Some s" and z: "size_f f \<noteq> 0"
    by (auto simp: usable_def)
  let ?w1 = "rehash (hasher f) val w"
  obtain ex err w2 where q: "RedisStorage_Exists s (index_of f val) ?w1 = ((ex, err), w2)"
    by (metis prod.exhaust)
  have k: "db w2 = db w" "faults w2 = []"
    using RedisStorage_Exists_db [of s "index_of f val" ?w1]
      RedisStorage_Exists_healthy [of ?w1 s "index_of f val"] Cons.prems(2) q by simp_all
  have u: "\<forall>f \<in> set fs. usable f" using Cons.prems(1) by simp
  from Cons.IH [OF u k(2), of ex] obtain r w' where
    "Exist_filters fs val ex w2 = Some (r, w')" "db w' = db w2" "faults w' = []" by blast
  then show ?case
    using s z q k by (auto simp: hashedValue_eq hashValue_eq umod_def index_of_def)
qed

lemma Exist_loop_keeps:
  "\<forall>f \<in> set fs. usable f \<Longrightarrow> faults w = [] \<Longrightarrow>
   \<exists>r w'. Exist_loop fs vals idx ex w = Some (r, w') \<and> db w' = db w \<and> faults w' = []"
proof (induction vals arbitrary: w idx ex)
  case Nil
  then show ?case by auto
next
  case (Cons v vals)
  from Exist_filters_keeps [OF Cons.prems, of v "ex ! idx"] obtain cur err w1 where
    f: "Exist_filters fs v (ex ! idx) w = Some ((cur, err), w1)" and k: "db w1 = db w" "faults w1 = []"
    by (metis prod.exhaust)
  from Cons.IH [OF Cons.prems(1) k(2), of "Suc idx" "ex[idx := cur]"] obtain r w' where
    "Exist_loop fs vals (Suc idx) (ex[idx := cur]) w1 = Some (r, w')" "db w' = db w1" "faults w' = []"
    by blast
  then show ?case
    using f k by auto
qed

lemma bitmap_db: "db w' = db w \<Longrightarrow> bitmap w k \<subseteq> bitmap w' k"
  by (simp add: bitmap_def)

lemma Append_as_Add: "Append val bf w = Add [val] bf w"
  by (cases "Append_loop (filters bf) val w") (auto simp: Append_def Add_def Add_filters_eq)

lemma do_call_inv:
  assumes u: "\<forall>f \<in> set (filters bf). usable f" and h: "faults w = []"
  shows "\<exists>bf' w'. do_call c (bf, w) = Some (bf', w') \<and>
           list_all2 grows (filters bf) (filters bf') \<and> faults w' = [] \<and>
           (\<forall>k. bitmap w k \<subseteq> bitmap w' k)"
proof (cases c)
  case (Call_Append val)
  from Add_loop_grows [OF u, of "[val]" w val] obtain fs' w' where
    "Add_loop (filters bf) [val] w = Some (fs', w')" "list_all2 grows (filters bf) fs'"
    "db w' = db w" "faults w' = faults w" by blast
  then show ?thesis
    using Call_Append h by (simp add: Append_as_Add Add_def bitmap_db)
next
  case (Call_Add vals)
  from Add_loop_grows [OF u, of vals w undefined] obtain fs' w' where
    "Add_loop (filters bf) vals w = Some (fs', w')" "list_all2 grows (filters bf) fs'"
    "db w' = db w" "faults w' = faults w" by blast
  then show ?thesis
    using Call_Add h by (simp add: Add_def bitmap_db)
next
  case Call_Save
  have s: "\<forall>f \<in> set (filters bf). storage f \<noteq> None" using u by (simp add: usable_def)
  have "Save bf w = Some (bf, save_all (filters bf) w)"
    using s by (simp add: Save_def Save_loop_eq save_all_def)
  then show ?thesis
    using Call_Save save_all_healthy [OF h, of "filters bf"] save_all_mono all_grows_refl [OF u]
    by simp
next
  case (Call_Load vals)
  from Add_loop_grows [OF u, of vals w undefined] obtain fs' w1 where
    a: "Add_loop (filters bf) vals w = Some (fs', w1)" and g: "list_all2 grows (filters bf) fs'"
    and d: "db w1 = db w" "faults w1 = faults w" by blast
  have u': "\<forall>f \<in> set fs'. usable f" using g u by (rule all_grows_usable)
  then have s: "\<forall>f \<in> set fs'. storage f \<noteq> None" by (simp add: usable_def)
  have h1: "faults w1 = []" using d h by simp
  have l: "Load vals bf w = Some ((None, None), bf\<lparr>filters := fs'\<rparr>, save_all fs' w1)"
    using a s by (simp add: Load_def Add_def Save_def Save_loop_eq save_all_def)
  have "bitmap w k \<subseteq> bitmap (save_all fs' w1) k" for k
    using bitmap_db [OF d(1), of k] save_all_mono [of w1 k fs'] by blast
  then show ?thesis
    using Call_Load l g save_all_healthy [OF h1, of fs'] by simp
next
  case (Call_Exists val)
  from Exists_loop_keeps [OF u h, of val None] obtain r w' where
    "Exists_loop (filters bf) val None w = Some (r, w')" "db w' = db w" "faults w' = []" by blast
  then show ?thesis
    using Call_Exists all_grows_refl [OF u] by (simp add: Exists_def bitmap_db)
next
  case (Call_Exist vals)
  from Exist_loop_keeps [OF u h, of vals 0 "replicate (length vals) False"] obtain r w' where
    "Exist_loop (filters bf) vals 0 (replicate (length vals) False) w = Some (r, w')"
    "db w' = db w" "faults w' = []" by blast
  then show ?thesis
    using Call_Exist all_grows_refl [OF u] by (simp add: Exist_def bitmap_db)
qed

lemma run_inv:
  assumes "\<forall>f \<in> set (filters bf). usable f" and "faults w = []"
  shows "\<exists>bf' w'. run cs (bf, w) = Some (bf', w') \<and>
           list_all2 grows (filters bf) (filters bf') \<and> faults w' = [] \<and>
           (\<forall>k. bitmap w k \<subseteq> bitmap w' k)"
  using assms
proof (induction cs arbitrary: bf w)
  case Nil
  then show ?case by (simp add: all_grows_refl)
next
  case (Cons c cs)
  from do_call_inv [OF Cons.prems, of c] obtain bf1 w1 where
    1: "do_call c (bf, w) = Some (bf1, w1)" and g1: "list_all2 grows (filters bf) (filters bf1)"
    and h1: "faults w1 = []" and m1: "\<forall>k. bitmap w k \<subseteq> bitmap w1 k" by blast
  have u1: "\<forall>f \<in> set (filters bf1). usable f" using g1 Cons.prems(1) by (rule all_grows_usable)
  from Cons.IH [OF u1 h1] obtain bf' w' where
    2: "run cs (bf1, w1) = Some (bf', w')" and g2: "list_all2 grows (filters bf1) (filters bf')"
    and h2: "faults w' = []" and m2: "\<forall>k. bitmap w1 k \<subseteq> bitmap w' k" by blast
  have "list_all2 grows (filters bf) (filters bf')" using g1 g2 by (rule all_grows_trans)
  moreover have "\<forall>k. bitmap w k \<subseteq> bitmap w' k" using m1 m2 by blast
  ultimately show ?case using 1 2 h2 by simp
qed

lemma run_append:
  "run (xs @ ys) st = (case run xs st of None \<Rightarrow> None | Some st' \<Rightarrow> run ys st')"
  by (induction xs arbitrary: st) (simp_all split: option.splits)

lemma insert_queued:
  assumes u: "\<forall>f \<in> set (filters bf). usable f"
      and c: "c = Call_Append val \<or> (\<exists>vals. c = Call_Add vals \<and> val \<in> set vals)"
      and r: "do_call c (bf, w) = Some (bf', w')"
  shows "queued (filters bf') val"
proof -
  have "\<exists>vals. val \<in> set vals \<and> do_call c (bf, w) = Add vals bf w"
  proof (cases "c = Call_Append val")
    case True
    then have "val \<in> set [val] \<and> do_call c (bf, w) = Add [val] bf w"
      by (simp add: Append_as_Add)
    then show ?thesis by blast
  next
    case False
    then show ?thesis using c by auto
  qed
  then obtain vals where v: "val \<in> set vals"
    and d: "do_call c (bf, w) = Add vals bf w" by blast
  from Add_loop_grows [OF u, of vals w val] v obtain fs' w1 where
    "Add_loop (filters bf) vals w = Some (fs', w1)" "queued fs' val" by blast
  then show ?thesis using r d by (auto simp: Add_def)
qed

section \<open>No false negatives\<close>

text \<open>
  C1: on a filter whose sub-filters all have a storage and a partition size other than 0,
  over working connections, let a client make any calls, then insert \<open>val\<close> by \<^verbatim>\<open>Append\<close>
  or by an \<^verbatim>\<open>Add\<close> whose values include it, then make any calls, then \<^verbatim>\<open>Save\<close>, then make
  any calls. The run does not panic, and \<^verbatim>\<open>Exists(val)\<close> on the filter it leaves returns
  \<open>(true, nil)\<close>.
\<close>

theorem no_false_negatives:
  assumes u: "\<forall>f \<in> set (filters bf). usable f"
      and h: "faults w = []"
      and c: "c = Call_Append val \<or> (\<exists>vals. c = Call_Add vals \<and> val \<in> set vals)"
  shows "\<exists>bf' w' w''.
           run (before @ c # between @ Call_Save # later) (bf, w) = Some (bf', w') \<and>
           Exists val bf' w' = Some ((True, None), w'')"
proof -
  from run_inv [OF u h, of before] obtain bf0 w0 where
    r0: "run before (bf, w) = Some (bf0, w0)" and g0: "list_all2 grows (filters bf) (filters bf0)"
    and h0: "faults w0 = []" by blast
  have u0: "\<forall>f \<in> set (filters bf0). usable f" using g0 u by (rule all_grows_usable)
  from do_call_inv [OF u0 h0, of c] obtain bf1 w1 where
    r1: "do_call c (bf0, w0) = Some (bf1, w1)" and g1: "list_all2 grows (filters bf0) (filters bf1)"
    and h1: "faults w1 = []" by blast
  have u1: "\<forall>f \<in> set (filters bf1). usable f" using g1 u0 by (rule all_grows_usable)
  have q1: "queued (filters bf1) val" using u0 c r1 by (rule insert_queued)
  from run_inv [OF u1 h1, of between] obtain bf2 w2 where
    r2: "run between (bf1, w1) = Some (bf2, w2)" and g2: "list_all2 grows (filters bf1) (filters bf2)"
    and h2: "faults w2 = []" by blast
  have u2: "\<forall>f \<in> set (filters bf2). usable f" using g2 u1 by (rule all_grows_usable)
  have q2: "queued (filters bf2) val" using g2 q1 by (rule queued_grows)
  have "\<forall>f \<in> set (filters bf2). storage f \<noteq> None" using u2 by (simp add: usable_def)
  then have r3: "do_call Call_Save (bf2, w2) = Some (bf2, save_all (filters bf2) w2)"
    by (simp add: Save_def Save_loop_eq save_all_def)
  have s3: "stored (filters bf2) (save_all (filters bf2) w2) val" using h2 q2 by (rule Save_stored)
  have h3: "faults (save_all (filters bf2) w2) = []"
    using save_all_healthy [OF h2, of "filters bf2"] by simp
  from run_inv [OF u2 h3, of later] obtain bf' w' where
    r4: "run later (bf2, save_all (filters bf2) w2) = Some (bf', w')"
    and g4: "list_all2 grows (filters bf2) (filters bf')" and h4: "faults w' = []"
    and m4: "\<forall>k. bitmap (save_all (filters bf2) w2) k \<subseteq> bitmap w' k" by blast
  have u4: "\<forall>f \<in> set (filters bf'). usable f" using g4 u2 by (rule all_grows_usable)
  have s4: "stored (filters bf') w' val" using g4 m4 s3 by (rule stored_grows)
  from Exists_loop_stored [OF u4 h4 s4] obtain w'' where
    e: "Exists val bf' w' = Some ((True, None), w'')" by (auto simp: Exists_def)
  have "run (before @ c # between @ Call_Save # later) (bf, w) = Some (bf', w')"
    using r0 r1 r2 r3 r4 by (simp add: run_append)
  then show ?thesis using e by blast
qed


theorem no_false_negatives_witness:
  "(case run [Call_Add [[100, 98]], Call_Append [97, 98], Call_Exist [[97, 98]],
              Call_Save, Call_Load [[99]]] (bloom0, world0) of
      None \<Rightarrow> None
    | Some (bf, w) \<Rightarrow> map_option fst (Exists [97, 98] bf w)) = Some (True, None)"
proof -
  have u: "\<forall>f \<in> set (filters bloom0). usable f"
    by (simp add: bloom0_def usable_def)
  have h: "faults world0 = []"
    by (simp add: world0_def)
  have c: "Call_Append [97, 98] = Call_Append [97, 98] \<or>
           (\<exists>vals. Call_Append [97, 98] = Call_Add vals \<and> [97, 98] \<in> set vals)"
    by simp
  from no_false_negatives [OF u h c, of "[Call_Add [[100, 98]]]" "[Call_Exist [[97, 98]]]"
      "[Call_Load [[99]]]"]
  show ?thesis by auto
qed

section \<open>Inserting twice\<close>

lemma db_flush_queue:
  "db (flush_queue s w) =
     (if queue s = [] then db w else (db w)(key s \<mapsto> bitmap w (key s) \<union> unat ` set (queue s)))"
  by (simp add: flush_queue_def db_setbits)

lemma Save_one_cong:
  assumes "key s' = key s" "set (queue s') = set (queue s)"
      and "db w' = db w" "ttl w' = ttl w" "faults w' = faults w"
  shows "db (snd (RedisStorage_Save s' w')) = db (snd (RedisStorage_Save s w)) \<and>
         ttl (snd (RedisStorage_Save s' w')) = ttl (snd (RedisStorage_Save s w)) \<and>
         faults (snd (RedisStorage_Save s' w')) = faults (snd (RedisStorage_Save s w))"
proof -
  have e: "queue s' = [] \<longleftrightarrow> queue s = []"
    using assms(2) by (metis set_empty)
  have b: "bitmap (w'\<lparr>faults := x\<rparr>) k = bitmap (w\<lparr>faults := x\<rparr>) k" "bitmap w' k = bitmap w k" for x k
    using assms(3) by (simp_all add: bitmap_def)
  show ?thesis
    using assms e
    by (cases "faults w")
       (auto simp: RedisStorage_Save_eq db_flush_queue flush_queue_fields b)
qed

lemma save_all_cong:
  "list_all2 same_bits fs fs' \<Longrightarrow> db w' = db w \<Longrightarrow> ttl w' = ttl w \<Longrightarrow> faults w' = faults w \<Longrightarrow>
   db (save_all fs' w') = db (save_all fs w) \<and> ttl (save_all fs' w') = ttl (save_all fs w)"
proof (induction arbitrary: w w' rule: list_all2_induct)
  case Nil
  then show ?case by (simp add: save_all_def)
next
  case (Cons f fs f' fs')
  from Cons.hyps(1) obtain s s' where s: "storage f = Some s" "storage f' = Some s'"
    and k: "key s' = key s" "set (queue s') = set (queue s)"
    by (auto simp: same_bits_def split: option.splits)
  from Save_one_cong [OF k Cons.prems]
  have "db (save_all fs' (snd (RedisStorage_Save s' w'))) = db (save_all fs (snd (RedisStorage_Save s w)))
      \<and> ttl (save_all fs' (snd (RedisStorage_Save s' w'))) = ttl (save_all fs (snd (RedisStorage_Save s w)))"
    by (intro Cons.IH) simp_all
  then show ?case by (simp add: save_all_def s)
qed

lemma same_bits_enqueue_twice:
  "\<forall>f \<in> set fs. usable f \<Longrightarrow>
   list_all2 same_bits (map (enqueue val) fs) (map (enqueue val) (map (enqueue val) fs))"
  by (induction fs)
     (auto simp: same_bits_def usable_def enqueue_def index_of_def RedisStorage_Append_def)


text \<open>
  C9: when \<^verbatim>\<open>Add(val)\<close> returns, a second \<^verbatim>\<open>Add(val)\<close> returns too and is the same as
  \<^verbatim>\<open>Add(val, val)\<close> from the start; \<^verbatim>\<open>Save\<close> after the one and after the two insertions
  returns, and leaves the same keys with the same bits (and the same expiries) on the
  server, whatever the state of the connections.
\<close>

theorem insert_twice_same_bits:
  assumes "Add [val] bf w = Some (bf1, w1)"
  shows "\<exists>bf2 w2 once twice.
           Add [val] bf1 w1 = Some (bf2, w2) \<and> Add [val, val] bf w = Some (bf2, w2) \<and>
           Save bf1 w1 = Some (bf1, once) \<and> Save bf2 w2 = Some (bf2, twice) \<and>
           db twice = db once \<and> ttl twice = ttl once"
proof -
  let ?fs = "filters bf"
  let ?fs1 = "map (enqueue val) ?fs"
  let ?fs2 = "map (enqueue val) ?fs1"
  let ?w1 = "foldl (\<lambda>w f. rehash (hasher f) val w) w ?fs"
  let ?w2 = "foldl (\<lambda>w f. rehash (hasher f) val w) ?w1 ?fs1"
  have u: "\<forall>f \<in> set ?fs. usable f"
    using assms by (auto simp: Add_def Add_filters_eq Append_loop_eq split: bind_splits if_splits)
  have 1: "bf1 = bf\<lparr>filters := ?fs1\<rparr>" "w1 = ?w1"
    using assms u by (auto simp: Add_def Add_filters_eq Append_loop_eq)
  have u1: "\<forall>f \<in> set ?fs1. usable f" using u by simp
  have u2: "\<forall>f \<in> set ?fs2. usable f" using u1 by simp
  have 2: "Add [val] bf1 w1 = Some (bf\<lparr>filters := ?fs2\<rparr>, ?w2)"
    using u1 by (simp add: 1 Add_def Add_filters_eq Append_loop_eq)
  have 3: "Add [val, val] bf w = Some (bf\<lparr>filters := ?fs2\<rparr>, ?w2)"
    using u u1 by (simp add: Add_def Add_filters_eq Append_loop_eq)
  have s1: "\<forall>f \<in> set ?fs1. storage f \<noteq> None" using u1 by (simp add: usable_def)
  have s2: "\<forall>f \<in> set ?fs2. storage f \<noteq> None" using u2 by (simp add: usable_def)
  have 4: "Save bf1 w1 = Some (bf1, save_all ?fs1 ?w1)"
    using s1 by (simp add: 1 Save_def Save_loop_eq save_all_def)
  have 5: "Save (bf\<lparr>filters := ?fs2\<rparr>) ?w2 = Some (bf\<lparr>filters := ?fs2\<rparr>, save_all ?fs2 ?w2)"
    using s2 by (simp add: Save_def Save_loop_eq save_all_def)
  have "db ?w2 = db ?w1" "ttl ?w2 = ttl ?w1" "faults ?w2 = faults ?w1"
    by (simp_all add: rehash_all_fields)
  from save_all_cong [OF same_bits_enqueue_twice [OF u] this]
  have 6: "db (save_all ?fs2 ?w2) = db (save_all ?fs1 ?w1)"
    "ttl (save_all ?fs2 ?w2) = ttl (save_all ?fs1 ?w1)" by simp_all
  show ?thesis using 2 3 4 5 6 by blast
qed


theorem insert_twice_same_bits_witness:
  "(case Add [[97, 98]] bloom0 world0 of None \<Rightarrow> None
    | Some (bf1, w1) \<Rightarrow>
        (case (Save bf1 w1, Add [[97, 98], [97, 98]] bloom0 world0) of
           (Some (bfa, once), Some (bf2, w2)) \<Rightarrow>
             (case Save bf2 w2 of None \<Rightarrow> None
              | Some (bfb, twice) \<Rightarrow>
                  Some (db once = db twice, db once ''x.1'', db once ''x.2'', queue (the (storage (hd (filters bf2))))))
         | _ \<Rightarrow> None))
   = Some (True, Some {2}, Some {1}, [2, 2])"
proof -
  have a: "Add [[97, 98]] bloom0 world0
             = Some (bloom0\<lparr>filters := map (enqueue [97, 98]) (filters bloom0)\<rparr>,
                     foldl (\<lambda>w f. rehash (hasher f) [97, 98] w) world0 (filters bloom0))"
    by (simp add: Add_def Add_filters_eq Append_loop_eq bloom0_def usable_def)
  have "(digest_a [97, 98] + digest_b [97, 98] * 1) mod 5 = 2"
    and "(digest_a [97, 98] + digest_b [97, 98] * 2) mod 5 = 1"
    by code_simp+
  then have i: "size_f f = 5 \<Longrightarrow> multiplier f = 1 \<Longrightarrow> index_of f [97, 98] = 2"
    "size_f f = 5 \<Longrightarrow> multiplier f = 2 \<Longrightarrow> index_of f [97, 98] = 1" for f
    by (simp_all add: index_of_def)
  from insert_twice_same_bits [OF a] obtain bf2 w2 once twice where
    r: "Add [[97, 98], [97, 98]] bloom0 world0 = Some (bf2, w2)"
       "Save (bloom0\<lparr>filters := map (enqueue [97, 98]) (filters bloom0)\<rparr>)
             (foldl (\<lambda>w f. rehash (hasher f) [97, 98] w) world0 (filters bloom0))
          = Some (bloom0\<lparr>filters := map (enqueue [97, 98]) (filters bloom0)\<rparr>, once)"
       "Save bf2 w2 = Some (bf2, twice)" "db twice = db once"
    by blast
  have o: "db once ''x.1'' = Some {2}" "db once ''x.2'' = Some {1}"
    using r(2)
    by (auto simp: i Save_def bloom0_def enqueue_def RedisStorage_Append_def RedisStorage_Save_eq
        db_flush_queue flush_queue_fields world0_def bitmap_def rehash_def)
  have q: "queue (the (storage (hd (filters bf2)))) = [2, 2]"
    using r(1)
    by (auto simp: i Add_def Add_filters_eq Append_loop_eq bloom0_def usable_def enqueue_def
        RedisStorage_Append_def)
  show ?thesis
    using a r o q by simp
qed

end
